theory Spec2Isabelle
  imports Main "HOL-Library.Char_ord" "HOL-Library.Sublist"
begin

section \<open>Season-pack decomposition of crowdclient-qbittorrent\<close>

text \<open>
  A shallow embedding of the season-pack code of \<^verbatim>\<open>main.go\<close>: pack detection
  (\<^verbatim>\<open>isSeasonPack\<close>, \<^verbatim>\<open>isSeasonPackFallback\<close>), episode identity
  (\<^verbatim>\<open>extractEpisodeInfo\<close> and its helpers) and the file lists
  (\<^verbatim>\<open>createFileList\<close>, \<^verbatim>\<open>createEpisodeFileList\<close>, \<^verbatim>\<open>findRelatedFiles\<close>).

  A Go string is a byte string, here a \<^typ>\<open>string\<close>. The patterns of the program only
  name ASCII characters; Go's \<^verbatim>\<open>\d\<close>, \<^verbatim>\<open>\b\<close> and the letter ranges of
  \<^verbatim>\<open>isCompletelyLowercase\<close> are ASCII by definition, so a byte beyond ASCII is never
  a digit, a word character or a letter. The case mappings of package \<^verbatim>\<open>strings\<close>
  (\<^verbatim>\<open>ToLower\<close>, \<^verbatim>\<open>ToUpper\<close>, \<^verbatim>\<open>EqualFold\<close>) are modelled on the ASCII range and
  leave other bytes alone.
\<close>

subsection \<open>Characters and package strings\<close>

definition is_upper :: "char \<Rightarrow> bool" where
  "is_upper r = (CHR ''A'' \<le> r \<and> r \<le> CHR ''Z'')"

definition is_lower :: "char \<Rightarrow> bool" where
  "is_lower r = (CHR ''a'' \<le> r \<and> r \<le> CHR ''z'')"

definition is_digit :: "char \<Rightarrow> bool" where
  "is_digit r = (CHR ''0'' \<le> r \<and> r \<le> CHR ''9'')"

text \<open>The word characters of \<^verbatim>\<open>\b\<close>: \<^verbatim>\<open>[0-9A-Za-z_]\<close>.\<close>

definition is_word :: "char \<Rightarrow> bool" where
  "is_word r = (is_upper r \<or> is_lower r \<or> is_digit r \<or> r = CHR ''_'')"

definition lower_char :: "char \<Rightarrow> char" where
  "lower_char r = (if is_upper r then char_of (of_char r + (32::nat)) else r)"

definition upper_char :: "char \<Rightarrow> char" where
  "upper_char r = (if is_lower r then char_of (of_char r - (32::nat)) else r)"

definition ToLower :: "string \<Rightarrow> string" where
  "ToLower s = map lower_char s"

definition ToUpper :: "string \<Rightarrow> string" where
  "ToUpper s = map upper_char s"

definition EqualFold :: "string \<Rightarrow> string \<Rightarrow> bool" where
  "EqualFold s t = (ToLower s = ToLower t)"

definition HasPrefix :: "string \<Rightarrow> string \<Rightarrow> bool" where
  "HasPrefix s p = (take (length p) s = p)"

definition HasSuffix :: "string \<Rightarrow> string \<Rightarrow> bool" where
  "HasSuffix s x = (length x \<le> length s \<and> drop (length s - length x) s = x)"

definition TrimSuffix :: "string \<Rightarrow> string \<Rightarrow> string" where
  "TrimSuffix s x = (if HasSuffix s x then take (length s - length x) s else s)"

text \<open>\<^verbatim>\<open>strings.ReplaceAll(s, old, "")\<close> for a one-byte \<^verbatim>\<open>old\<close>.\<close>

definition remove_char :: "char \<Rightarrow> string \<Rightarrow> string" where
  "remove_char c s = filter (\<lambda>x. x \<noteq> c) s"

text \<open>
  \<^verbatim>\<open>strings.TrimSpace\<close> drops leading and trailing white space; on ASCII that is
  tab, line feed, vertical tab, form feed, carriage return and space.
\<close>

definition is_space :: "char \<Rightarrow> bool" where
  "is_space r = (r \<in> {CHR 0x09, CHR 0x0A, CHR 0x0B, CHR 0x0C, CHR 0x0D, CHR '' ''})"

definition TrimSpace :: "string \<Rightarrow> string" where
  "TrimSpace s = rev (dropWhile is_space (rev (dropWhile is_space s)))"

subsection \<open>Package regexp: a backtracking matcher\<close>

text \<open>
  Go's \<^verbatim>\<open>regexp\<close> finds the leftmost match and, among the matches that start
  there, the one a backtracking search finds first (alternatives left to right, a greedy
  repetition longest first, a lazy one shortest first). The matcher below returns, for a
  start position, the end positions and submatches of all matches in that order of
  preference; the head of the list is Go's match. Only the constructs the program's
  patterns use are present, and repetition is of a character class, as it is in all of
  them.
\<close>

datatype re =
    Chr "char \<Rightarrow> bool"
  | WordB
  | Bol
  | Seq re re
  | Alt re re
  | Rep nat nat "char \<Rightarrow> bool"
  | LazyPlus "char \<Rightarrow> bool"
  | Grp nat re

type_synonym caps = "(nat \<times> nat \<times> nat) list"

text \<open>\<^verbatim>\<open>\b\<close> at position \<open>i\<close>: a word character on exactly one side.\<close>

definition word_boundary :: "string \<Rightarrow> nat \<Rightarrow> bool" where
  "word_boundary s i =
     ((0 < i \<and> i \<le> length s \<and> is_word (s ! (i - 1))) \<noteq> (i < length s \<and> is_word (s ! i)))"

primrec ms :: "re \<Rightarrow> string \<Rightarrow> nat \<times> caps \<Rightarrow> (nat \<times> caps) list" where
  "ms (Chr p) s = (\<lambda>(i, c). if i < length s \<and> p (s ! i) then [(Suc i, c)] else [])"
| "ms WordB s = (\<lambda>(i, c). if word_boundary s i then [(i, c)] else [])"
| "ms Bol s = (\<lambda>(i, c). if i = 0 then [(i, c)] else [])"
| "ms (Seq a b) s = (\<lambda>st. concat (map (ms b s) (ms a s st)))"
| "ms (Alt a b) s = (\<lambda>st. ms a s st @ ms b s st)"
| "ms (Rep m n p) s =
     (\<lambda>(i, c). map (\<lambda>j. (i + j, c))
        (rev [m ..< Suc (length (takeWhile p (take n (drop i s))))]))"
| "ms (LazyPlus p) s =
     (\<lambda>(i, c). map (\<lambda>j. (i + j, c)) [1 ..< Suc (length (takeWhile p (drop i s)))])"
| "ms (Grp k a) s = (\<lambda>(i, c). map (\<lambda>(j, c'). (j, (k, i, j) # c')) (ms a s (i, c)))"

primrec cat :: "re list \<Rightarrow> re" where
  "cat [] = Rep 0 0 (\<lambda>_. False)"
| "cat (r # rs) = (if rs = [] then r else Seq r (cat rs))"

text \<open>
  A letter under \<^verbatim>\<open>(?i)\<close> matches every rune of its case-folding orbit. For the
  letters of the program's patterns that is the two ASCII cases, except for \<^verbatim>\<open>S\<close>,
  whose orbit also holds U+017F (LATIN SMALL LETTER LONG S, the bytes C5 BF in UTF-8).
\<close>

definition fold_lit :: "char \<Rightarrow> re" where
  "fold_lit l =
     (if lower_char l = CHR ''s''
      then Alt (Chr (\<lambda>r. lower_char r = CHR ''s''))
               (Seq (Chr (\<lambda>r. r = CHR 0xC5)) (Chr (\<lambda>r. r = CHR 0xBF)))
      else Chr (\<lambda>r. lower_char r = lower_char l))"

definition fold_str :: "string \<Rightarrow> re" where
  "fold_str w = cat (map fold_lit w)"

definition lit :: "char \<Rightarrow> re" where
  "lit l = Chr (\<lambda>r. r = l)"

text \<open>\<^verbatim>\<open>.\<close> matches any character but a line feed.\<close>

definition dot :: "char \<Rightarrow> bool" where
  "dot r = (r \<noteq> CHR 0x0A)"

text \<open>
  The search: the first start position from \<open>pos\<close> on at which the pattern matches, with
  the preferred match there. The result is (start, end, submatches).
\<close>

definition exec :: "re \<Rightarrow> string \<Rightarrow> nat \<Rightarrow> (nat \<times> nat \<times> caps) option" where
  "exec r s pos =
     (case List.find (\<lambda>i. ms r s (i, []) \<noteq> []) [pos ..< Suc (length s)] of
        None \<Rightarrow> None
      | Some i \<Rightarrow> (case ms r s (i, []) of [] \<Rightarrow> None | (j, c) # _ \<Rightarrow> Some (i, j, c)))"

definition MatchString :: "re \<Rightarrow> string \<Rightarrow> bool" where
  "MatchString r s = (exec r s 0 \<noteq> None)"

definition slice :: "string \<Rightarrow> nat \<Rightarrow> nat \<Rightarrow> string" where
  "slice s i j = take (j - i) (drop i s)"

text \<open>The text of group \<open>k\<close>, empty when the group took no part in the match.\<close>

definition group :: "string \<Rightarrow> caps \<Rightarrow> nat \<Rightarrow> string" where
  "group s c k = (case map_of c k of None \<Rightarrow> [] | Some (i, j) \<Rightarrow> slice s i j)"

text \<open>
  \<^verbatim>\<open>FindStringSubmatch\<close> of a pattern with \<open>n\<close> groups: \<open>None\<close> is Go's nil slice;
  element 0 is the whole match, element \<open>k\<close> the text of group \<open>k\<close>.
\<close>

definition FindStringSubmatch :: "re \<Rightarrow> nat \<Rightarrow> string \<Rightarrow> string list option" where
  "FindStringSubmatch r n s =
     (case exec r s 0 of
        None \<Rightarrow> None
      | Some (i, j, c) \<Rightarrow> Some (slice s i j # map (group s c) [1 ..< Suc n]))"

definition FindString :: "re \<Rightarrow> string \<Rightarrow> string" where
  "FindString r s = (case exec r s 0 of None \<Rightarrow> [] | Some (i, j, c) \<Rightarrow> slice s i j)"

subsection \<open>Season-pack detection by name\<close>

definition seasonPattern :: re where
  "seasonPattern = cat [WordB, fold_lit CHR ''S'', Rep 2 4 is_digit, WordB]"

definition episodePattern :: re where
  "episodePattern =
     cat [WordB, fold_lit CHR ''S'', Rep 2 4 is_digit, fold_lit CHR ''E'', Rep 2 4 is_digit, WordB]"

definition isoYearPattern :: re where
  "isoYearPattern =
     cat [WordB, fold_lit CHR ''S'',
          Grp 1 (cat [lit CHR ''2'', lit CHR ''0'', Rep 2 2 is_digit]), WordB]"

definition isSeasonPack :: "string \<Rightarrow> bool" where
  "isSeasonPack jobName =
     (if MatchString seasonPattern jobName \<and> \<not> MatchString episodePattern jobName then True
      else if MatchString isoYearPattern jobName then True
      else False)"

subsection \<open>Case check\<close>

fun isCompletelyLowercase_loop :: "string \<Rightarrow> bool \<Rightarrow> bool" where
  "isCompletelyLowercase_loop [] hasLetter = hasLetter"
| "isCompletelyLowercase_loop (r # s) hasLetter =
     (if is_upper r then False
      else isCompletelyLowercase_loop s (if is_lower r then True else hasLetter))"

definition isCompletelyLowercase :: "string \<Rightarrow> bool" where
  "isCompletelyLowercase s = isCompletelyLowercase_loop s False"

subsection \<open>Package filepath (Unix separator)\<close>

fun split_at :: "char \<Rightarrow> string \<Rightarrow> string list" where
  "split_at c [] = [[]]"
| "split_at c (x # xs) =
     (if x = c then [] # split_at c xs
      else (let r = split_at c xs in (x # hd r) # tl r))"

fun join_with :: "string \<Rightarrow> string list \<Rightarrow> string" where
  "join_with sep [] = []"
| "join_with sep [e] = e"
| "join_with sep (e # es) = e @ sep @ join_with sep es"

text \<open>
  \<^verbatim>\<open>Clean\<close> on the elements of a path: empty and \<^verbatim>\<open>.\<close> elements go, a
  \<^verbatim>\<open>..\<close> removes the element before it, is dropped at the root and kept at the
  start of a relative path. The elements kept so far are held in reverse.
\<close>

fun clean_elems :: "bool \<Rightarrow> string list \<Rightarrow> string list \<Rightarrow> string list" where
  "clean_elems rooted out [] = rev out"
| "clean_elems rooted out (e # es) =
     (if e = [] \<or> e = ''.'' then clean_elems rooted out es
      else if e = ''..'' then
        (if out \<noteq> [] \<and> hd out \<noteq> ''..'' then clean_elems rooted (tl out) es
         else if \<not> rooted then clean_elems rooted (''..'' # out) es
         else clean_elems rooted out es)
      else clean_elems rooted (e # out) es)"

definition Clean :: "string \<Rightarrow> string" where
  "Clean path =
     (if path = [] then ''.''
      else (let rooted = (hd path = CHR ''/'');
                out = (if rooted then ''/'' else []) @
                      join_with ''/'' (clean_elems rooted [] (split_at CHR ''/'' path))
            in if out = [] then ''.'' else out))"

definition Join :: "string \<Rightarrow> string \<Rightarrow> string" where
  "Join a b =
     (if a = [] \<and> b = [] then []
      else if a = [] then Clean b
      else if b = [] then Clean a
      else Clean (a @ ''/'' @ b))"

definition last_elem :: "string \<Rightarrow> string" where
  "last_elem path = rev (takeWhile (\<lambda>c. c \<noteq> CHR ''/'') (rev path))"

definition filepath_Dir :: "string \<Rightarrow> string" where
  "filepath_Dir path = Clean (take (length path - length (last_elem path)) path)"

definition Base :: "string \<Rightarrow> string" where
  "Base path =
     (if path = [] then ''.''
      else (let p = rev (dropWhile (\<lambda>c. c = CHR ''/'') (rev path))
            in if p = [] then ''/'' else last_elem p))"

definition Ext :: "string \<Rightarrow> string" where
  "Ext path =
     (let e = last_elem path
      in if CHR ''.'' \<in> set e then CHR ''.'' # rev (takeWhile (\<lambda>c. c \<noteq> CHR ''.'') (rev e))
         else [])"

datatype error = SkipDir | SkipAll | LstatError string | ReadDirError string
  | InfoError string | RelError string string | NilEntry

fun drop_common :: "string list \<Rightarrow> string list \<Rightarrow> string list \<times> string list" where
  "drop_common (b # bs) (t # ts) = (if b = t then drop_common bs ts else (b # bs, t # ts))"
| "drop_common bs ts = (bs, ts)"

text \<open>
  \<^verbatim>\<open>Rel\<close>: the common leading elements of the two cleaned paths are dropped; what
  is left of the base is climbed with \<^verbatim>\<open>..\<close>, what is left of the target follows.
\<close>

definition Rel :: "string \<Rightarrow> string \<Rightarrow> error + string" where
  "Rel basepath targpath =
     (let base = Clean basepath; targ = Clean targpath
      in if targ = base then Inr ''.''
         else (let base = (if base = ''.'' then [] else base)
               in if (base \<noteq> [] \<and> hd base = CHR ''/'') \<noteq> (targ \<noteq> [] \<and> hd targ = CHR ''/'')
                  then Inl (RelError basepath targpath)
                  else (let (bs, ts) = drop_common (if base = [] then [] else split_at CHR ''/'' base)
                                                   (split_at CHR ''/'' targ)
                        in if bs \<noteq> [] \<and> hd bs = ''..'' then Inl (RelError basepath targpath)
                           else if bs \<noteq> [] then
                             Inr (join_with ''/'' (map (\<lambda>_. ''..'') bs @ ts))
                           else Inr (join_with ''/'' ts))))"

text \<open>\<^verbatim>\<open>ToSlash\<close> is the identity where the separator is the slash.\<close>

definition ToSlash :: "string \<Rightarrow> string" where
  "ToSlash path = path"

subsection \<open>The file system\<close>

text \<open>
  A directory tree as \<^verbatim>\<open>os.ReadDir\<close> and \<^verbatim>\<open>filepath.WalkDir\<close> see it. A file
  has a name and a size, \<open>None\<close> when its \<^verbatim>\<open>Info\<close> (or \<^verbatim>\<open>Stat\<close>) fails, as for a
  file removed after it was listed. A directory has a name, the entries its
  \<^verbatim>\<open>ReadDir\<close> returns, and a flag telling that \<^verbatim>\<open>ReadDir\<close> reports an error
  (the entries are then those read before the error). The tree's root stands for
  \<^verbatim>\<open>/\<close>.
\<close>

datatype node = FileNode string "nat option" | DirNode string "node list" bool

fun node_name :: "node \<Rightarrow> string" where
  "node_name (FileNode n _) = n"
| "node_name (DirNode n _ _) = n"

fun IsDir :: "node \<Rightarrow> bool" where
  "IsDir (FileNode _ _) = False"
| "IsDir (DirNode _ _ _) = True"

text \<open>\<^verbatim>\<open>d.Info()\<close>: the size, or an error.\<close>

fun Info :: "node \<Rightarrow> nat option" where
  "Info (FileNode _ sz) = sz"
| "Info (DirNode _ _ _) = Some 0"

fun lookup :: "node \<Rightarrow> string list \<Rightarrow> node option"
  and lookup_in :: "node list \<Rightarrow> string list \<Rightarrow> node option" where
  "lookup n [] = Some n"
| "lookup (FileNode _ _) (e # es) = None"
| "lookup (DirNode _ ents _) (e # es) = lookup_in ents (e # es)"
| "lookup_in [] es = None"
| "lookup_in (n # ns) es =
     (case es of [] \<Rightarrow> None
      | e # es' \<Rightarrow> if node_name n = e then lookup n es' else lookup_in ns es)"

definition path_elems :: "string \<Rightarrow> string list" where
  "path_elems path = filter (\<lambda>e. e \<noteq> []) (split_at CHR ''/'' (Clean path))"

text \<open>\<^verbatim>\<open>os.Lstat\<close> and \<^verbatim>\<open>os.Stat\<close> (there are no symbolic links in the model).\<close>

definition Stat :: "node \<Rightarrow> string \<Rightarrow> node option" where
  "Stat fs path =
     (case lookup fs (path_elems path) of
        None \<Rightarrow> None
      | Some n \<Rightarrow> if Info n = None then None else Some n)"

text \<open>\<^verbatim>\<open>os.ReadDir\<close>: the entries read and the error, if any.\<close>

definition ReadDir :: "node \<Rightarrow> string \<Rightarrow> node list \<times> error option" where
  "ReadDir fs path =
     (case Stat fs path of
        Some (DirNode _ ents failed) \<Rightarrow>
          (ents, if failed then Some (ReadDirError path) else None)
      | _ \<Rightarrow> ([], Some (ReadDirError path)))"

subsection \<open>filepath.WalkDir\<close>

text \<open>
  The walk function of the caller takes the path, the entry (\<open>None\<close> when the root
  could not be stat'ed) and the error reported to it, and returns an error or nil; the
  variables it assigns are the state \<open>'a\<close> passed through the walk.
\<close>

type_synonym 'a walkfn = "string \<Rightarrow> node option \<Rightarrow> error option \<Rightarrow> 'a \<Rightarrow> 'a \<times> error option"

fun walkDir :: "string \<Rightarrow> node \<Rightarrow> 'a walkfn \<Rightarrow> 'a \<Rightarrow> 'a \<times> error option"
  and walkEntries :: "string \<Rightarrow> node list \<Rightarrow> 'a walkfn \<Rightarrow> 'a \<Rightarrow> 'a \<times> error option" where
  "walkDir path (FileNode n sz) fn acc = fn path (Some (FileNode n sz)) None acc"
| "walkDir path (DirNode n ents failed) fn acc =
     (case fn path (Some (DirNode n ents failed)) None acc of
        (acc1, Some err) \<Rightarrow> (acc1, if err = SkipDir then None else Some err)
      | (acc1, None) \<Rightarrow>
          (if failed then
             (case fn path (Some (DirNode n ents failed)) (Some (ReadDirError path)) acc1 of
                (acc2, Some err) \<Rightarrow> (acc2, if err = SkipDir then None else Some err)
              | (acc2, None) \<Rightarrow> walkEntries path ents fn acc2)
           else walkEntries path ents fn acc1))"
| "walkEntries path [] fn acc = (acc, None)"
| "walkEntries path (d1 # ds) fn acc =
     (case walkDir (Join path (node_name d1)) d1 fn acc of
        (acc1, Some err) \<Rightarrow> (acc1, if err = SkipDir then None else Some err)
      | (acc1, None) \<Rightarrow> walkEntries path ds fn acc1)"

definition WalkDir :: "node \<Rightarrow> string \<Rightarrow> 'a walkfn \<Rightarrow> 'a \<Rightarrow> 'a \<times> error option" where
  "WalkDir fs root fn acc =
     (case (case Stat fs root of
              None \<Rightarrow> fn root None (Some (LstatError root)) acc
            | Some d \<Rightarrow> walkDir root d fn acc) of
        (acc1, Some err) \<Rightarrow> (acc1, if err = SkipDir \<or> err = SkipAll then None else Some err)
      | (acc1, None) \<Rightarrow> (acc1, None))"

subsection \<open>ReplaceAllString and ReplaceAllStringFunc\<close>

text \<open>The width of the UTF-8 rune at the head of a string (\<^verbatim>\<open>utf8.DecodeRuneInString\<close>).\<close>

definition in_range :: "nat \<Rightarrow> nat \<Rightarrow> string \<Rightarrow> nat \<Rightarrow> bool" where
  "in_range lo hi s k = (k < length s \<and> lo \<le> of_char (s ! k) \<and> of_char (s ! k) \<le> hi)"

definition rune_width :: "string \<Rightarrow> nat" where
  "rune_width s =
     (if s = [] then 0
      else (let x = (of_char (hd s) :: nat)
            in if 0xC2 \<le> x \<and> x \<le> 0xDF \<and> in_range 0x80 0xBF s 1 then 2
               else if 0xE0 \<le> x \<and> x \<le> 0xEF
                       \<and> in_range (if x = 0xE0 then 0xA0 else 0x80) (if x = 0xED then 0x9F else 0xBF) s 1
                       \<and> in_range 0x80 0xBF s 2 then 3
               else if 0xF0 \<le> x \<and> x \<le> 0xF4
                       \<and> in_range (if x = 0xF0 then 0x90 else 0x80) (if x = 0xF4 then 0x8F else 0xBF) s 1
                       \<and> in_range 0x80 0xBF s 2 \<and> in_range 0x80 0xBF s 3 then 4
               else 1))"

lemma ms_mono: "(j, c') \<in> set (ms r s (i, c)) \<Longrightarrow> i \<le> j"
proof (induction r arbitrary: i j c c')
  case (Seq a b)
  then obtain k c1 where "(k, c1) \<in> set (ms a s (i, c))" "(j, c') \<in> set (ms b s (k, c1))"
    by auto
  with Seq.IH show ?case by (meson le_trans)
qed (auto split: if_splits)

lemma exec_bounds:
  assumes "exec r s pos = Some (a0, a1, c)"
  shows "pos \<le> a0 \<and> a0 \<le> a1"
proof -
  from assms obtain st rest where f: "List.find (\<lambda>i. ms r s (i, []) \<noteq> []) [pos ..< Suc (length s)] = Some a0"
    and m: "ms r s (a0, []) = (a1, c) # rest"
    by (auto simp: exec_def split: option.splits list.splits)
  from f have "a0 \<in> set [pos ..< Suc (length s)]"
    by (metis find_Some_iff nth_mem)
  moreover from m have "(a1, c) \<in> set (ms r s (a0, []))" by simp
  ultimately show ?thesis using ms_mono by auto
qed

text \<open>
  The loop of \<^verbatim>\<open>Regexp.replaceAll\<close>: \<open>repl\<close> gives the replacement for the text of
  a match; \<open>searchPos\<close> and \<open>lastMatchEnd\<close> are the loop's variables.
\<close>

function replaceAll :: "re \<Rightarrow> string \<Rightarrow> (string \<Rightarrow> string) \<Rightarrow> nat \<Rightarrow> nat \<Rightarrow> string" where
  "replaceAll r src repl searchPos lastMatchEnd =
     (if searchPos \<le> length src then
        (case exec r src searchPos of
           None \<Rightarrow> drop lastMatchEnd src
         | Some (a0, a1, c) \<Rightarrow>
             slice src lastMatchEnd a0 @
             (if a1 > lastMatchEnd \<or> a0 = 0 then repl (slice src a0 a1) else []) @
             replaceAll r src repl
               (let width = rune_width (drop searchPos src)
                in if searchPos + width > a1 then searchPos + width
                   else if searchPos + 1 > a1 then searchPos + 1
                   else a1)
               a1)
      else drop lastMatchEnd src)"
  by pat_completeness auto
termination
proof (relation "measure (\<lambda>(r, src, repl, searchPos, lastMatchEnd). Suc (length src) - searchPos)")
  show "wf (measure (\<lambda>(r, src, repl, searchPos, lastMatchEnd). Suc (length src) - searchPos))"
    by simp
next
  fix r :: re and src :: string and repl :: "string \<Rightarrow> string" and searchPos lastMatchEnd :: nat
    and x2 :: "nat \<times> nat \<times> caps" and a0 y a1 c
  assume le: "searchPos \<le> length src" and ex: "exec r src searchPos = Some x2"
    and x2: "(a0, y) = x2" "(a1, c) = y"
  from ex x2 have "exec r src searchPos = Some (a0, a1, c)" by simp
  then have "searchPos \<le> a1" using exec_bounds by fastforce
  then show "((r, src, repl,
           (let width = rune_width (drop searchPos src)
            in if searchPos + width > a1 then searchPos + width
               else if searchPos + 1 > a1 then searchPos + 1 else a1), a1),
          (r, src, repl, searchPos, lastMatchEnd))
         \<in> measure (\<lambda>(r, src, repl, searchPos, lastMatchEnd). Suc (length src) - searchPos)"
    using le by (auto simp: Let_def)
qed

definition ReplaceAllString :: "re \<Rightarrow> string \<Rightarrow> string \<Rightarrow> string" where
  "ReplaceAllString r src repl = replaceAll r src (\<lambda>_. repl) 0 0"

definition ReplaceAllStringFunc :: "re \<Rightarrow> string \<Rightarrow> (string \<Rightarrow> string) \<Rightarrow> string" where
  "ReplaceAllStringFunc r src repl = replaceAll r src repl 0 0"

subsection \<open>Scanning for video files\<close>

record VideoFile =
  Path :: string
  Dir :: string
  Name :: string

record EpisodeInfo =
  VideoFile :: VideoFile
  EpisodeNum :: string
  ReleaseName :: string
  NFOFile :: string

record FileListEntry =
  FilePath :: string
  FileSizeBytes :: nat

definition mediaInfoExtensions :: "string list" where
  "mediaInfoExtensions =
     [''.mkv'', ''.mp4'', ''.avi'', ''.mov'', ''.wmv'', ''.flv'', ''.mpeg'', ''.mpg'', ''.webm'',
      ''.m4v'', ''.divx'', ''.xvid'', ''.mp3'', ''.aac'', ''.flac'', ''.wav'', ''.ogg'', ''.opus'',
      ''.m4a'', ''.mka'', ''.wma'', ''.alac'', ''.dts'', ''.dtshd'', ''.ac3'', ''.eac3'', ''.ec3'',
      ''.m4b'']"

definition isAudioExtension :: "string \<Rightarrow> bool" where
  "isAudioExtension ext =
     (ext \<in> set [''.mp3'', ''.aac'', ''.flac'', ''.wav'', ''.ogg'', ''.opus'', ''.m4a'', ''.mka'',
                 ''.wma'', ''.alac'', ''.dts'', ''.dtshd'', ''.ac3'', ''.eac3'', ''.ec3'', ''.m4b''])"

text \<open>
  The loop over \<^verbatim>\<open>mediaInfoExtensions\<close> in the walk functions: at the first equal
  extension the file is taken unless the extension is an audio one; in both cases the
  loop ends.
\<close>

fun video_ext_loop :: "string \<Rightarrow> string list \<Rightarrow> bool" where
  "video_ext_loop ext [] = False"
| "video_ext_loop ext (videoExt # rest) =
     (if ext = videoExt then \<not> isAudioExtension ext else video_ext_loop ext rest)"

definition findAllVideoFiles_fn :: "VideoFile list walkfn" where
  "findAllVideoFiles_fn path d err videoFiles =
     (case err of
        Some e \<Rightarrow> (videoFiles, Some e)
      | None \<Rightarrow>
          (case d of
             None \<Rightarrow> (videoFiles, Some NilEntry)
           | Some d \<Rightarrow>
               if IsDir d then (videoFiles, None)
               else if video_ext_loop (ToLower (Ext path)) mediaInfoExtensions
               then (videoFiles @ [\<lparr>Path = path, Dir = filepath_Dir path, Name = Base path\<rparr>], None)
               else (videoFiles, None)))"

definition findAllVideoFiles :: "node \<Rightarrow> string \<Rightarrow> VideoFile list \<times> error option" where
  "findAllVideoFiles fs dir = WalkDir fs dir findAllVideoFiles_fn []"

definition isSeasonPackFallback :: "node \<Rightarrow> string \<Rightarrow> bool" where
  "isSeasonPackFallback fs finalDir =
     (case findAllVideoFiles fs finalDir of
        (videoFiles, Some err) \<Rightarrow> False
      | (videoFiles, None) \<Rightarrow> length videoFiles \<ge> 3)"

subsection \<open>File lists\<close>

definition createFileList_fn :: "string \<Rightarrow> FileListEntry list walkfn" where
  "createFileList_fn baseDir path d err entries =
     (case err of
        Some e \<Rightarrow> (entries, Some e)
      | None \<Rightarrow>
          (case d of
             None \<Rightarrow> (entries, Some NilEntry)
           | Some d \<Rightarrow>
               if IsDir d then (entries, None)
               else (case Rel baseDir path of
                       Inl e \<Rightarrow> (entries, Some e)
                     | Inr relPath \<Rightarrow>
                         (case Info d of
                            None \<Rightarrow> (entries, Some (InfoError path))
                          | Some sz \<Rightarrow>
                              (entries @ [\<lparr>FilePath = ToSlash relPath, FileSizeBytes = sz\<rparr>],
                               None)))))"

definition createFileList :: "node \<Rightarrow> string \<Rightarrow> string \<Rightarrow> FileListEntry list \<times> error option" where
  "createFileList fs dir releaseName = WalkDir fs dir (createFileList_fn (Clean dir)) []"

definition extractEpisodeNumber_pattern :: re where
  "extractEpisodeNumber_pattern =
     Alt (cat [fold_lit CHR ''S'', Rep 2 4 is_digit,
               Grp 1 (cat [fold_lit CHR ''E'', Rep 2 4 is_digit])])
         (Grp 2 (cat [fold_lit CHR ''E'', Rep 2 4 is_digit]))"

fun first_episode_part :: "string list \<Rightarrow> string" where
  "first_episode_part [] = []"
| "first_episode_part (m # rest) =
     (if m \<noteq> [] \<and> HasPrefix (ToUpper m) ''E'' then ToUpper m else first_episode_part rest)"

definition extractEpisodeNumber :: "string \<Rightarrow> string" where
  "extractEpisodeNumber fileName =
     (case FindStringSubmatch extractEpisodeNumber_pattern 2 fileName of
        None \<Rightarrow> []
      | Some matches \<Rightarrow> first_episode_part (tl matches))"

definition isRelatedFileByEpisode :: "string \<Rightarrow> string \<Rightarrow> bool" where
  "isRelatedFileByEpisode fileName episodeNum =
     EqualFold (extractEpisodeNumber fileName) episodeNum"

text \<open>The loop of \<^verbatim>\<open>findRelatedFiles\<close> over the directory's entries.\<close>

fun findRelatedFiles_loop ::
  "string \<Rightarrow> string \<Rightarrow> string \<Rightarrow> string \<Rightarrow> node list \<Rightarrow> FileListEntry list \<Rightarrow> FileListEntry list" where
  "findRelatedFiles_loop dir baseDir videoPath episodeNum [] entries = entries"
| "findRelatedFiles_loop dir baseDir videoPath episodeNum (entry # rest) entries =
     (if IsDir entry then findRelatedFiles_loop dir baseDir videoPath episodeNum rest entries
      else (let fileName = node_name entry;
                fileBaseName = TrimSuffix fileName (Ext fileName)
            in if fileName = Base videoPath
               then findRelatedFiles_loop dir baseDir videoPath episodeNum rest entries
               else if isRelatedFileByEpisode fileBaseName episodeNum
               then (case Info entry of
                       None \<Rightarrow> findRelatedFiles_loop dir baseDir videoPath episodeNum rest entries
                     | Some sz \<Rightarrow>
                         (case Rel baseDir (Join dir fileName) of
                            Inl e \<Rightarrow>
                              findRelatedFiles_loop dir baseDir videoPath episodeNum rest entries
                          | Inr relPath \<Rightarrow>
                              findRelatedFiles_loop dir baseDir videoPath episodeNum rest
                                (entries @ [\<lparr>FilePath = ToSlash relPath, FileSizeBytes = sz\<rparr>])))
               else findRelatedFiles_loop dir baseDir videoPath episodeNum rest entries))"

definition findRelatedFiles ::
  "node \<Rightarrow> string \<Rightarrow> string \<Rightarrow> string \<Rightarrow> FileListEntry list \<times> error option" where
  "findRelatedFiles fs dir videoBaseName videoPath =
     (let baseDir = Clean dir
      in case Stat fs videoPath of
           None \<Rightarrow> ([], Some (LstatError videoPath))
         | Some videoInfo \<Rightarrow>
             (case Rel baseDir videoPath of
                Inl e \<Rightarrow> ([], Some e)
              | Inr videoRelPath \<Rightarrow>
                  (let entries = [\<lparr>FilePath = ToSlash videoRelPath,
                                   FileSizeBytes = (case Info videoInfo of Some sz \<Rightarrow> sz | None \<Rightarrow> 0)\<rparr>];
                       episodeNum = extractEpisodeNumber videoBaseName
                   in if episodeNum = [] then (entries, None)
                      else (case ReadDir fs dir of
                              (dirEntries, Some e) \<Rightarrow> (entries, Some e)
                            | (dirEntries, None) \<Rightarrow>
                                (findRelatedFiles_loop dir baseDir videoPath episodeNum dirEntries entries,
                                 None)))))"

definition createEpisodeFileList :: "node \<Rightarrow> EpisodeInfo \<Rightarrow> FileListEntry list \<times> error option" where
  "createEpisodeFileList fs episodeInfo =
     (let seasonPackDir = filepath_Dir (Dir (VideoFile episodeInfo))
      in case findAllVideoFiles fs seasonPackDir of
           (allVideoFiles, Some err) \<Rightarrow> ([], Some err)
         | (allVideoFiles, None) \<Rightarrow>
             (let mainDirVideoCount =
                    length (filter (\<lambda>vf. Dir vf = Dir (VideoFile episodeInfo)) allVideoFiles)
              in if mainDirVideoCount = 0
                 then createFileList fs (Dir (VideoFile episodeInfo)) (ReleaseName episodeInfo)
                 else if mainDirVideoCount > 1
                 then (let videoBaseName = TrimSuffix (Name (VideoFile episodeInfo))
                                             (Ext (Name (VideoFile episodeInfo)))
                       in case findRelatedFiles fs (Dir (VideoFile episodeInfo)) videoBaseName
                                 (Path (VideoFile episodeInfo)) of
                            (entries, Some err) \<Rightarrow> ([], Some err)
                          | (entries, None) \<Rightarrow> (entries, None))
                 else createFileList fs (Dir (VideoFile episodeInfo)) (ReleaseName episodeInfo)))"

subsection \<open>Episode identity\<close>

definition normalizeString :: "string \<Rightarrow> string" where
  "normalizeString s = remove_char CHR '' '' (remove_char CHR ''.'' (ToLower s))"

definition isValidEpisodeFileName_seasonPattern :: re where
  "isValidEpisodeFileName_seasonPattern =
     cat [Bol, Grp 1 (LazyPlus dot), Rep 0 1 (\<lambda>r. r = CHR ''.''), fold_lit CHR ''S'',
          Rep 2 4 is_digit]"

definition isValidEpisodeFileName_episodePattern :: re where
  "isValidEpisodeFileName_episodePattern =
     cat [Bol, Grp 1 (LazyPlus dot), Rep 0 1 (\<lambda>r. r = CHR ''.''), fold_lit CHR ''S'',
          Rep 2 4 is_digit, fold_lit CHR ''E'', Rep 2 4 is_digit]"

definition isValidEpisodeFileName :: "string \<Rightarrow> string \<Rightarrow> bool" where
  "isValidEpisodeFileName fileName seasonPackName =
     (case FindStringSubmatch isValidEpisodeFileName_seasonPattern 1 seasonPackName of
        Some (m0 # seasonPrefix # _) \<Rightarrow>
          (case FindStringSubmatch isValidEpisodeFileName_episodePattern 1 fileName of
             Some (e0 # episodePrefix # _) \<Rightarrow>
               normalizeString seasonPrefix = normalizeString episodePrefix
           | _ \<Rightarrow> False)
      | _ \<Rightarrow> False)"

definition completePattern :: re where
  "completePattern =
     cat [WordB, Grp 1 (Alt (fold_str ''COMPLETE'') (fold_str ''iNCOMPLETE'')), WordB]"

definition seasonTokenPattern :: re where
  "seasonTokenPattern = cat [WordB, fold_lit CHR ''S'', Grp 1 (Rep 2 4 is_digit), WordB]"

definition digitsPattern :: re where
  "digitsPattern = Rep 2 4 is_digit"

definition generateEpisodeReleaseName :: "string \<Rightarrow> string \<Rightarrow> string" where
  "generateEpisodeReleaseName seasonPackName episodeNum =
     (let cleanName = TrimSpace (ReplaceAllString completePattern seasonPackName [])
      in ReplaceAllStringFunc seasonTokenPattern cleanName
           (\<lambda>match. ''S'' @ FindString digitsPattern match @ episodeNum))"

definition findNFOInDirectory :: "node \<Rightarrow> string \<Rightarrow> string" where
  "findNFOInDirectory fs dir =
     (case ReadDir fs dir of
        (entries, Some err) \<Rightarrow> []
      | (entries, None) \<Rightarrow>
          (case List.find (\<lambda>entry. \<not> IsDir entry \<and> HasSuffix (ToLower (node_name entry)) ''.nfo'')
                  entries of
             None \<Rightarrow> []
           | Some entry \<Rightarrow> Join dir (node_name entry)))"

definition findGeneralNFO_pattern :: re where
  "findGeneralNFO_pattern =
     cat [lit CHR ''s'', Rep 2 4 is_digit, lit CHR ''e'', Rep 2 4 is_digit]"

definition findGeneralNFO :: "node \<Rightarrow> string \<Rightarrow> string" where
  "findGeneralNFO fs dir =
     (case ReadDir fs dir of
        (entries, Some err) \<Rightarrow> []
      | (entries, None) \<Rightarrow>
          (case List.find (\<lambda>entry. \<not> IsDir entry
                             \<and> HasSuffix (ToLower (node_name entry)) ''.nfo''
                             \<and> \<not> MatchString findGeneralNFO_pattern (ToLower (node_name entry)))
                  entries of
             None \<Rightarrow> []
           | Some entry \<Rightarrow> Join dir (node_name entry)))"

definition extractEpisodeInfo_episodePattern :: re where
  "extractEpisodeInfo_episodePattern =
     cat [fold_lit CHR ''S'', Grp 1 (Rep 2 4 is_digit), fold_lit CHR ''E'', Grp 2 (Rep 2 4 is_digit)]"

definition isoDatePattern :: re where
  "isoDatePattern =
     Grp 1 (cat [Rep 4 4 is_digit, lit CHR ''-'', Rep 2 2 is_digit, lit CHR ''-'', Rep 2 2 is_digit])"

text \<open>\<^verbatim>\<open>_, err := os.Stat(nfoPath); err == nil\<close>\<close>

definition file_exists :: "node \<Rightarrow> string \<Rightarrow> bool" where
  "file_exists fs path = (Stat fs path \<noteq> None)"

definition extractEpisodeInfo :: "node \<Rightarrow> VideoFile \<Rightarrow> string \<Rightarrow> string \<Rightarrow> EpisodeInfo" where
  "extractEpisodeInfo fs videoFile seasonPackName generalNFO =
     (let episodeInfo = \<lparr>VideoFile = videoFile, EpisodeNum = [], ReleaseName = [], NFOFile = []\<rparr>;
          parentDir = Base (Dir videoFile)
      in if EqualFold parentDir seasonPackName then
           (let fileName = TrimSuffix (Name videoFile) (Ext (Name videoFile))
            in case FindStringSubmatch extractEpisodeInfo_episodePattern 2 fileName of
                 Some matches \<Rightarrow>
                   (let episodeInfo = episodeInfo\<lparr>EpisodeNum := ''E'' @ matches ! 2\<rparr>;
                        episodeInfo =
                          (if isValidEpisodeFileName fileName seasonPackName
                              \<and> \<not> isCompletelyLowercase fileName
                           then (let episodeInfo = episodeInfo\<lparr>ReleaseName := fileName\<rparr>;
                                     nfoPath = Join (Dir videoFile) (fileName @ ''.nfo'')
                                 in if file_exists fs nfoPath
                                    then episodeInfo\<lparr>NFOFile := nfoPath\<rparr> else episodeInfo)
                           else episodeInfo\<lparr>ReleaseName :=
                                  generateEpisodeReleaseName seasonPackName (EpisodeNum episodeInfo)\<rparr>)
                    in if NFOFile episodeInfo = [] \<and> EpisodeNum episodeInfo = ''E01''
                          \<and> generalNFO \<noteq> []
                       then episodeInfo\<lparr>NFOFile := generalNFO\<rparr> else episodeInfo)
               | None \<Rightarrow>
                   (case FindStringSubmatch isoDatePattern 1 fileName of
                      Some matches \<Rightarrow>
                        (let episodeInfo = episodeInfo\<lparr>EpisodeNum := matches ! 1,
                                                        ReleaseName := fileName\<rparr>;
                             nfoPath = Join (Dir videoFile) (fileName @ ''.nfo'');
                             episodeInfo = (if file_exists fs nfoPath
                                            then episodeInfo\<lparr>NFOFile := nfoPath\<rparr> else episodeInfo)
                         in if NFOFile episodeInfo = [] \<and> generalNFO \<noteq> []
                            then episodeInfo\<lparr>NFOFile := generalNFO\<rparr> else episodeInfo)
                    | None \<Rightarrow> episodeInfo))
         else
           (case FindStringSubmatch extractEpisodeInfo_episodePattern 2 parentDir of
              Some matches \<Rightarrow>
                (let episodeInfo = episodeInfo\<lparr>EpisodeNum := ''E'' @ matches ! 2\<rparr>
                 in if isValidEpisodeFileName parentDir seasonPackName
                       \<and> isCompletelyLowercase parentDir
                    then episodeInfo
                    else (let episodeInfo = episodeInfo\<lparr>ReleaseName := parentDir,
                                NFOFile := findNFOInDirectory fs (Dir videoFile)\<rparr>
                          in if NFOFile episodeInfo = [] \<and> EpisodeNum episodeInfo = ''E01''
                                \<and> generalNFO \<noteq> []
                             then episodeInfo\<lparr>NFOFile := generalNFO\<rparr> else episodeInfo))
            | None \<Rightarrow>
                (case FindStringSubmatch isoDatePattern 1 parentDir of
                   Some matches \<Rightarrow>
                     (let episodeInfo = episodeInfo\<lparr>EpisodeNum := matches ! 1,
                                                     ReleaseName := parentDir,
                                                     NFOFile := findNFOInDirectory fs (Dir videoFile)\<rparr>
                      in if NFOFile episodeInfo = [] \<and> generalNFO \<noteq> []
                         then episodeInfo\<lparr>NFOFile := generalNFO\<rparr> else episodeInfo)
                 | None \<Rightarrow> episodeInfo)))"

text \<open>
  The part of \<^verbatim>\<open>processSeasonPack\<close> that builds the list of episodes: every video
  file of the pack is given to \<^verbatim>\<open>extractEpisodeInfo\<close>, and a result is kept when its
  \<^verbatim>\<open>ReleaseName\<close> is not empty.
\<close>

definition processSeasonPack_episodes :: "node \<Rightarrow> string \<Rightarrow> string \<Rightarrow> EpisodeInfo list \<times> error option" where
  "processSeasonPack_episodes fs finalDir cleanJobName =
     (if \<not> isSeasonPackFallback fs finalDir then ([], None)
      else (case findAllVideoFiles fs finalDir of
              (videoFiles, Some err) \<Rightarrow> ([], Some err)
            | (videoFiles, None) \<Rightarrow>
                (if length videoFiles = 0 then ([], None)
                 else (let generalNFO = findGeneralNFO fs finalDir
                       in (filter (\<lambda>episodeInfo. ReleaseName episodeInfo \<noteq> [])
                             (map (\<lambda>videoFile. extractEpisodeInfo fs videoFile cleanJobName generalNFO)
                                videoFiles),
                           None)))))"

subsection \<open>Tokens of a release name\<close>

text \<open>
  The specification speaks of standalone tokens in a name: a season token (\<^verbatim>\<open>S\<close> and
  two to four digits), an episode token (a season token directly followed by \<^verbatim>\<open>E\<close>
  and two to four digits) and a year token (\<^verbatim>\<open>S20\<close> and two digits), each between
  two word boundaries. The predicates say so by positions; the \<^verbatim>\<open>S\<close> may be of either
  case or the long s.
\<close>

definition season_letter_at :: "string \<Rightarrow> nat \<Rightarrow> nat \<Rightarrow> bool" where
  "season_letter_at s i j =
     ((j = i + 1 \<and> i < length s \<and> (s ! i = CHR ''S'' \<or> s ! i = CHR ''s''))
      \<or> (j = i + 2 \<and> i + 1 < length s \<and> s ! i = CHR 0xC5 \<and> s ! (i + 1) = CHR 0xBF))"

definition episode_letter_at :: "string \<Rightarrow> nat \<Rightarrow> bool" where
  "episode_letter_at s i = (i < length s \<and> (s ! i = CHR ''E'' \<or> s ! i = CHR ''e''))"

text \<open>The positions from \<open>i\<close> up to \<open>j\<close> hold two to four digits.\<close>

definition digits_run :: "string \<Rightarrow> nat \<Rightarrow> nat \<Rightarrow> bool" where
  "digits_run s i j =
     (i + 2 \<le> j \<and> j \<le> i + 4 \<and> j \<le> length s \<and> (\<forall>k\<in>{i..<j}. is_digit (s ! k)))"

definition season_token_at :: "string \<Rightarrow> nat \<Rightarrow> bool" where
  "season_token_at s i =
     (word_boundary s i
      \<and> (\<exists>k\<in>{i + 1, i + 2}. season_letter_at s i k
            \<and> (\<exists>j\<in>{k + 2..k + 4}. digits_run s k j \<and> word_boundary s j)))"

definition has_season_token :: "string \<Rightarrow> bool" where
  "has_season_token s = (\<exists>i\<in>{0..length s}. season_token_at s i)"

definition episode_token_at :: "string \<Rightarrow> nat \<Rightarrow> bool" where
  "episode_token_at s i =
     (word_boundary s i
      \<and> (\<exists>k\<in>{i + 1, i + 2}. season_letter_at s i k
            \<and> (\<exists>e\<in>{k + 2..k + 4}. digits_run s k e \<and> episode_letter_at s e
                  \<and> (\<exists>j\<in>{e + 3..e + 5}. digits_run s (Suc e) j \<and> word_boundary s j))))"

definition has_episode_token :: "string \<Rightarrow> bool" where
  "has_episode_token s = (\<exists>i\<in>{0..length s}. episode_token_at s i)"

definition year_token_at :: "string \<Rightarrow> nat \<Rightarrow> bool" where
  "year_token_at s i =
     (word_boundary s i
      \<and> (\<exists>k\<in>{i + 1, i + 2}. season_letter_at s i k
            \<and> k + 4 \<le> length s \<and> s ! k = CHR ''2'' \<and> s ! (k + 1) = CHR ''0''
            \<and> is_digit (s ! (k + 2)) \<and> is_digit (s ! (k + 3)) \<and> word_boundary s (k + 4)))"

definition has_year_token :: "string \<Rightarrow> bool" where
  "has_year_token s = (\<exists>i\<in>{0..length s}. year_token_at s i)"

text \<open>An \<^verbatim>\<open>E\<close> of either case directly followed by two digits.\<close>

definition bare_episode_at :: "string \<Rightarrow> nat \<Rightarrow> bool" where
  "bare_episode_at s j =
     (episode_letter_at s j \<and> j + 2 < length s \<and> is_digit (s ! (j + 1)) \<and> is_digit (s ! (j + 2)))"

subsection \<open>Directory trees without errors\<close>

text \<open>
  What the specification's words about a scan refer to: a tree all of whose directories
  can be read, all of whose files can be stat'ed, the video files of a tree in the order
  of the walk, and their number by name. A name in a directory is never empty,
  \<^verbatim>\<open>.\<close> or \<^verbatim>\<open>..\<close> and holds no slash.
\<close>

definition valid_name :: "string \<Rightarrow> bool" where
  "valid_name n = (n \<noteq> [] \<and> n \<noteq> ''.'' \<and> n \<noteq> ''..'' \<and> CHR ''/'' \<notin> set n)"

fun no_read_error :: "node \<Rightarrow> bool" and no_read_errors :: "node list \<Rightarrow> bool" where
  "no_read_error (FileNode n sz) = True"
| "no_read_error (DirNode n ents failed) = (\<not> failed \<and> no_read_errors ents)"
| "no_read_errors [] = True"
| "no_read_errors (d # ds) = (no_read_error d \<and> no_read_errors ds)"

fun video_files :: "string \<Rightarrow> node \<Rightarrow> VideoFile list"
  and video_files_in :: "string \<Rightarrow> node list \<Rightarrow> VideoFile list" where
  "video_files path (FileNode n sz) =
     (if video_ext_loop (ToLower (Ext path)) mediaInfoExtensions
      then [\<lparr>Path = path, Dir = filepath_Dir path, Name = Base path\<rparr>] else [])"
| "video_files path (DirNode n ents failed) = video_files_in path ents"
| "video_files_in path [] = []"
| "video_files_in path (d # ds) = video_files (Join path (node_name d)) d @ video_files_in path ds"


definition is_video_name :: "string \<Rightarrow> bool" where
  "is_video_name n = video_ext_loop (ToLower (Ext n)) mediaInfoExtensions"

fun count_video :: "node \<Rightarrow> nat" and count_video_in :: "node list \<Rightarrow> nat" where
  "count_video (FileNode n sz) = (if is_video_name n then 1 else 0)"
| "count_video (DirNode n ents failed) = count_video_in ents"
| "count_video_in [] = 0"
| "count_video_in (d # ds) = count_video d + count_video_in ds"

fun valid_tree :: "node \<Rightarrow> bool" and valid_trees :: "node list \<Rightarrow> bool" where
  "valid_tree (FileNode n sz) = valid_name n"
| "valid_tree (DirNode n ents failed) = (valid_name n \<and> valid_trees ents)"
| "valid_trees [] = True"
| "valid_trees (d # ds) = (valid_tree d \<and> valid_trees ds)"

subsection \<open>Related files, in the words of the code and of the specification\<close>

text \<open>
  The key of a name as section 4.3 of the specification gives it: the episode digits of
  the first \<^verbatim>\<open>SxxExx\<close> token behind an \<^verbatim>\<open>E\<close>, else the first ISO date, else none.
\<close>

definition spec_episode_key :: "string \<Rightarrow> string option" where
  "spec_episode_key name =
     (case FindStringSubmatch extractEpisodeInfo_episodePattern 2 name of
        Some m \<Rightarrow> Some (''E'' @ m ! 2)
      | None \<Rightarrow>
          (case FindStringSubmatch isoDatePattern 1 name of
             Some m \<Rightarrow> Some (m ! 1)
           | None \<Rightarrow> None))"

text \<open>
  What \<^verbatim>\<open>findRelatedFiles\<close> asks of a directory entry to list it as \<open>e\<close> beside the
  video file: it is not a directory, it is not the video file, its base name yields
  the same episode number as \<open>episodeNum\<close> up to case, and its size and relative path
  are those of \<open>e\<close>.
\<close>

definition related_entry ::
  "string \<Rightarrow> string \<Rightarrow> string \<Rightarrow> string \<Rightarrow> node \<Rightarrow> FileListEntry \<Rightarrow> bool" where
  "related_entry dir baseDir videoPath episodeNum entry e =
     (\<not> IsDir entry \<and> node_name entry \<noteq> Base videoPath
      \<and> EqualFold (extractEpisodeNumber (TrimSuffix (node_name entry) (Ext (node_name entry))))
           episodeNum
      \<and> Info entry = Some (FileSizeBytes e)
      \<and> Rel baseDir (Join dir (node_name entry)) = Inr (FilePath e))"

subsection \<open>Example data\<close>

text \<open>
  A pack \<^verbatim>\<open>/dl/Show.S01\<close> with its episodes in one directory, used to evaluate the
  functions above on concrete input.
\<close>

definition example_pack :: "node list" where
  "example_pack =
     [FileNode ''Show.E02.srt'' (Some 7),
      FileNode ''Show.S01E01.mkv'' (Some 100),
      FileNode ''Show.S01E01.nfo'' (Some 5),
      FileNode ''Show.S01E02.mkv'' (Some 200),
      FileNode ''show.s01e03.mkv'' (Some 300)]"

definition example_fs :: node where
  "example_fs = DirNode [] [DirNode ''dl'' [DirNode ''Show.S01'' example_pack False] False] False"

definition example_video :: VideoFile where
  "example_video =
     \<lparr>Path = ''/dl/Show.S01/Show.S01E02.mkv'', Dir = ''/dl/Show.S01'', Name = ''Show.S01E02.mkv''\<rparr>"

text \<open>
  A pack with a subdirectory that cannot be read, and one with a file that has gone
  when its size is asked for.
\<close>

definition unreadable_pack :: "node list" where
  "unreadable_pack =
     [FileNode ''a.mkv'' (Some 10), DirNode ''b'' [] True,
      FileNode ''c.mkv'' (Some 30), FileNode ''d.mkv'' (Some 40)]"

definition unreadable_fs :: node where
  "unreadable_fs = DirNode [] [DirNode ''dl'' [DirNode ''Pack'' unreadable_pack False] False] False"

definition vanished_fs :: node where
  "vanished_fs =
     DirNode [] [DirNode ''dl'' [DirNode ''Pack''
       [FileNode ''a.mkv'' (Some 10), FileNode ''b.nfo'' None, FileNode ''c.mkv'' (Some 30)]
       False] False] False"

section \<open>Properties\<close>

subsection \<open>Facts about the matcher\<close>

primrec min_width :: "re \<Rightarrow> nat" where
  "min_width (Chr p) = 1"
| "min_width WordB = 0"
| "min_width Bol = 0"
| "min_width (Seq a b) = min_width a + min_width b"
| "min_width (Alt a b) = min (min_width a) (min_width b)"
| "min_width (Rep m n p) = m"
| "min_width (LazyPlus p) = 1"
| "min_width (Grp k a) = min_width a"

lemma ms_bound: "(j, c') \<in> set (ms r s (i, c)) \<Longrightarrow> i \<le> length s \<Longrightarrow> j \<le> length s"
proof (induction r arbitrary: i j c c')
  case (Seq a b)
  then obtain k c1 where "(k, c1) \<in> set (ms a s (i, c))" "(j, c') \<in> set (ms b s (k, c1))"
    by auto
  with Seq show ?case by blast
next
  case (Rep m n p)
  have "length (takeWhile p (take n (drop i s))) \<le> length s - i"
    by (metis length_takeWhile_le length_take length_drop min.cobounded1 le_trans)
  with Rep show ?case by auto
next
  case (LazyPlus p)
  have "length (takeWhile p (drop i s)) \<le> length s - i"
    by (metis length_takeWhile_le length_drop)
  with LazyPlus show ?case by auto
qed (auto split: if_splits)

lemma ms_min_width: "(j, c') \<in> set (ms r s (i, c)) \<Longrightarrow> i + min_width r \<le> j"
proof (induction r arbitrary: i j c c')
  case (Seq a b)
  then obtain k c1 where "(k, c1) \<in> set (ms a s (i, c))" "(j, c') \<in> set (ms b s (k, c1))"
    by auto
  with Seq.IH[of k c1 i c] Seq.IH(2)[of j c' k c1] show ?case by simp
next
  case (Alt a b)
  then have "(j, c') \<in> set (ms a s (i, c)) \<or> (j, c') \<in> set (ms b s (i, c))" by simp
  with Alt.IH show ?case by (fastforce simp: min_def)
qed (auto split: if_splits)

lemma ms_Grp_mem:
  "(j, c') \<in> set (ms (Grp k a) s (i, c))
   \<Longrightarrow> \<exists>c0. c' = (k, i, j) # c0 \<and> (j, c0) \<in> set (ms a s (i, c))"
  by auto

text \<open>What a successful search tells: the start is the leftmost one with a match.\<close>

lemma exec_SomeD:
  assumes "exec r s pos = Some (i, j, c)"
  shows "pos \<le> i" "i \<le> length s" "(j, c) \<in> set (ms r s (i, []))"
    "\<exists>rest. ms r s (i, []) = (j, c) # rest"
    "\<forall>k. pos \<le> k \<and> k < i \<longrightarrow> ms r s (k, []) = []"
proof -
  from assms obtain rest
    where f: "List.find (\<lambda>i. ms r s (i, []) \<noteq> []) [pos ..< Suc (length s)] = Some i"
      and m: "ms r s (i, []) = (j, c) # rest"
    by (auto simp: exec_def split: option.splits list.splits)
  from f obtain n where n: "n < length [pos ..< Suc (length s)]" "i = [pos ..< Suc (length s)] ! n"
     "\<forall>t<n. ms r s ([pos ..< Suc (length s)] ! t, []) = []"
    by (auto simp: find_Some_iff)
  from n(1,2) have i: "i = pos + n" "pos + n < Suc (length s)"
    by (simp_all del: upt_Suc)
  then show "pos \<le> i" "i \<le> length s" by simp_all
  from m show "(j, c) \<in> set (ms r s (i, []))" "\<exists>rest. ms r s (i, []) = (j, c) # rest"
    by simp_all
  show "\<forall>k. pos \<le> k \<and> k < i \<longrightarrow> ms r s (k, []) = []"
  proof (intro allI impI)
    fix k assume k: "pos \<le> k \<and> k < i"
    then have "k - pos < n" using i by auto
    with n(3) have "ms r s ([pos ..< Suc (length s)] ! (k - pos), []) = []" by blast
    moreover have "[pos ..< Suc (length s)] ! (k - pos) = k"
      using k i by (simp del: upt_Suc)
    ultimately show "ms r s (k, []) = []" by simp
  qed
qed

lemma lower_char_simps [simp]:
  "lower_char CHR ''S'' = CHR ''s''" "lower_char CHR ''E'' = CHR ''e''"
  by code_simp+

lemma is_upper_nat: "is_upper r \<longleftrightarrow> 65 \<le> (of_char r :: nat) \<and> (of_char r :: nat) \<le> 90"
  by (simp add: is_upper_def less_eq_char_def)

lemma is_lower_nat: "is_lower r \<longleftrightarrow> 97 \<le> (of_char r :: nat) \<and> (of_char r :: nat) \<le> 122"
  by (simp add: is_lower_def less_eq_char_def)

lemma is_digit_nat: "is_digit r \<longleftrightarrow> 48 \<le> (of_char r :: nat) \<and> (of_char r :: nat) \<le> 57"
  by (simp add: is_digit_def less_eq_char_def)

lemma of_char_lower_char:
  "(of_char (lower_char r) :: nat) = (if is_upper r then of_char r + 32 else of_char r)"
  by (simp add: lower_char_def is_upper_nat)

lemma char_eq_nat: "(r = c) \<longleftrightarrow> ((of_char r :: nat) = of_char c)"
  by simp

lemma lower_char_s_iff: "lower_char r = CHR ''s'' \<longleftrightarrow> r = CHR ''S'' \<or> r = CHR ''s''"
  by (simp add: char_eq_nat[of _ "CHR ''s''"] char_eq_nat[of _ "CHR ''S''"] of_char_lower_char is_upper_nat) arith

lemma lower_char_e_iff: "lower_char r = CHR ''e'' \<longleftrightarrow> r = CHR ''E'' \<or> r = CHR ''e''"
  by (simp add: char_eq_nat[of _ "CHR ''e''"] char_eq_nat[of _ "CHR ''E''"] of_char_lower_char is_upper_nat) arith


subsection \<open>Facts about the case check and the episode patterns\<close>



lemma isoDate_group_nonempty:
  assumes "FindStringSubmatch isoDatePattern 1 s = Some m"
  shows "m ! 1 \<noteq> []"
proof -
  from assms obtain i j c where e: "exec isoDatePattern s 0 = Some (i, j, c)"
    and m: "m = slice s i j # map (group s c) [1 ..< Suc 1]"
    by (auto simp: FindStringSubmatch_def split: option.splits)
  let ?X = "cat [Rep 4 4 is_digit, lit CHR ''-'', Rep 2 2 is_digit, lit CHR ''-'', Rep 2 2 is_digit]"
  from exec_SomeD[OF e] have il: "i \<le> length s"
    and mem: "(j, c) \<in> set (ms isoDatePattern s (i, []))"
    by simp_all
  from mem have "(j, c) \<in> set (ms (Grp 1 ?X) s (i, []))"
    by (simp only: isoDatePattern_def)
  from ms_Grp_mem[OF this] obtain c0
    where c: "c = (1, i, j) # c0" and mem0: "(j, c0) \<in> set (ms ?X s (i, []))"
    by blast
  from ms_min_width[OF mem0] have "i + 10 \<le> j" by (simp add: lit_def)
  moreover from ms_bound[OF mem0 il] have "j \<le> length s" .
  ultimately have "slice s i j \<noteq> []" by (auto simp: slice_def)
  with c m show ?thesis by (simp add: group_def)
qed


subsection \<open>The name patterns and the tokens\<close>

lemma length_takeWhile_ge:
  "k \<le> length (takeWhile p xs) \<longleftrightarrow> k \<le> length xs \<and> (\<forall>t<k. p (xs ! t))"
proof (induction xs arbitrary: k)
  case Nil then show ?case by auto
next
  case (Cons x xs)
  show ?case
  proof (cases k)
    case 0 then show ?thesis by simp
  next
    case (Suc k')
    then show ?thesis using Cons.IH[of k']
      by (auto simp: less_Suc_eq_0_disj)
  qed
qed

lemma set_ms_Rep:
  assumes "i \<le> length s \<or> 0 < m"
  shows "(j, c') \<in> set (ms (Rep m n p) s (i, c)) \<longleftrightarrow>
     c' = c \<and> i + m \<le> j \<and> j \<le> i + n \<and> j \<le> length s \<and> (\<forall>t\<in>{i..<j}. p (s ! t))"
proof (cases "i \<le> length s")
  case True
  have *: "\<And>k. k \<le> length (takeWhile p (take n (drop i s))) \<longleftrightarrow>
      k \<le> n \<and> i + k \<le> length s \<and> (\<forall>t<k. p (s ! (i + t)))"
    using True by (auto simp: length_takeWhile_ge)
  have **: "\<And>k. (\<forall>t<k. p (s ! (i + t))) \<longleftrightarrow> (\<forall>t\<in>{i..<i + k}. p (s ! t))"
    by (metis add.commute atLeastLessThan_iff le_Suc_ex nat_add_left_cancel_less le_add1)
  show ?thesis
  proof
    assume "(j, c') \<in> set (ms (Rep m n p) s (i, c))"
    then obtain k where k: "j = i + k" "c' = c" "m \<le> k" "k \<le> length (takeWhile p (take n (drop i s)))"
      by auto
    with * ** show "c' = c \<and> i + m \<le> j \<and> j \<le> i + n \<and> j \<le> length s \<and> (\<forall>t\<in>{i..<j}. p (s ! t))"
      by auto
  next
    assume a: "c' = c \<and> i + m \<le> j \<and> j \<le> i + n \<and> j \<le> length s \<and> (\<forall>t\<in>{i..<j}. p (s ! t))"
    then obtain k where k: "j = i + k" by (metis le_Suc_ex le_add1 le_trans)
    with a * ** have "m \<le> k" "k \<le> length (takeWhile p (take n (drop i s)))" by auto
    with a k show "(j, c') \<in> set (ms (Rep m n p) s (i, c))" by auto
  qed
next
  case False
  with assms have "0 < m" "length s < i" by auto
  then show ?thesis by auto
qed

lemma set_ms_digits:
  "(j, c') \<in> set (ms (Rep 2 4 is_digit) s (i, c)) \<longleftrightarrow> c' = c \<and> digits_run s i j"
  by (subst set_ms_Rep) (auto simp: digits_run_def)

lemma set_ms_fold_S:
  "(j, c') \<in> set (ms (fold_lit CHR ''S'') s (i, c)) \<longleftrightarrow> c' = c \<and> season_letter_at s i j"
  by (auto simp: fold_lit_def season_letter_at_def lower_char_s_iff split: if_splits)

lemma set_ms_fold_E:
  "(j, c') \<in> set (ms (fold_lit CHR ''E'') s (i, c)) \<longleftrightarrow> c' = c \<and> j = Suc i \<and> episode_letter_at s i"
  by (auto simp: fold_lit_def episode_letter_at_def lower_char_e_iff split: if_splits)

lemma set_ms_WordB:
  "(j, c') \<in> set (ms WordB s (i, c)) \<longleftrightarrow> c' = c \<and> j = i \<and> word_boundary s i"
  by auto

lemma set_ms_Seq:
  "(j, c') \<in> set (ms (Seq a b) s st) \<longleftrightarrow> (\<exists>k c1. (k, c1) \<in> set (ms a s st) \<and> (j, c') \<in> set (ms b s (k, c1)))"
  by auto

lemma MatchString_iff:
  "MatchString r s \<longleftrightarrow> (\<exists>i\<in>{0..length s}. ms r s (i, []) \<noteq> [])"
proof (cases "List.find (\<lambda>i. ms r s (i, []) \<noteq> []) [0 ..< Suc (length s)]")
  case None
  then have "\<forall>i\<in>set [0 ..< Suc (length s)]. ms r s (i, []) = []"
    by (simp only: find_None_iff) blast
  then have "\<not> (\<exists>i\<in>{0..length s}. ms r s (i, []) \<noteq> [])" by auto
  with None show ?thesis by (simp add: MatchString_def exec_def)
next
  case (Some i)
  then have "ms r s (i, []) \<noteq> []" "i \<in> set [0 ..< Suc (length s)]"
    by (metis (mono_tags, lifting) find_Some_iff nth_mem)+
  moreover from this Some have "exec r s 0 \<noteq> None"
    by (auto simp: exec_def split: list.splits)
  ultimately show ?thesis by (auto simp: MatchString_def)
qed

lemma season_letter_bound: "season_letter_at s i k \<Longrightarrow> k \<le> length s \<and> (k = i + 1 \<or> k = i + 2)"
  by (auto simp: season_letter_at_def)

lemma digits_run_bound: "digits_run s k j \<Longrightarrow> j \<le> length s \<and> k + 2 \<le> j \<and> j \<le> k + 4"
  by (auto simp: digits_run_def)

lemma nonempty_iff_mem: "xs \<noteq> [] \<longleftrightarrow> (\<exists>j c'. (j, c') \<in> set xs)"
  by (cases xs) auto

lemma cat_unfold:
  "cat [r] = r" "cat (r # r' # rs) = Seq r (cat (r' # rs))"
  by simp_all

lemma seasonPattern_at1:
  "ms seasonPattern s (i, c) \<noteq> [] \<longleftrightarrow>
      (word_boundary s i \<and> (\<exists>k. season_letter_at s i k \<and> (\<exists>j. digits_run s k j \<and> word_boundary s j)))"
    unfolding nonempty_iff_mem seasonPattern_def cat_unfold
    apply (simp only: set_ms_Seq set_ms_WordB set_ms_fold_S set_ms_digits)
    apply blast
    done


lemma season_letter_Bex:
  "(\<exists>k. season_letter_at s i k \<and> P k) \<longleftrightarrow> (\<exists>k\<in>{i + 1, i + 2}. season_letter_at s i k \<and> P k)"
  using season_letter_bound by blast

lemma digits_run_Bex:
  "(\<exists>j. digits_run s k j \<and> P j) \<longleftrightarrow> (\<exists>j\<in>{k + 2..k + 4}. digits_run s k j \<and> P j)"
  using digits_run_bound by (metis atLeastAtMost_iff)

lemma seasonPattern_at:
  "ms seasonPattern s (i, c) \<noteq> [] \<longleftrightarrow> season_token_at s i"
  unfolding seasonPattern_at1 season_token_at_def
  by (simp only: season_letter_Bex[symmetric] digits_run_Bex[symmetric])

lemma has_season_token_iff: "MatchString seasonPattern s \<longleftrightarrow> has_season_token s"
  by (simp only: MatchString_iff seasonPattern_at has_season_token_def)

lemma digits_run_Suc_Bex:
  "(\<exists>j. digits_run s (Suc e) j \<and> P j) \<longleftrightarrow> (\<exists>j\<in>{e + 3..e + 5}. digits_run s (Suc e) j \<and> P j)"
proof -
  have "\<And>j. digits_run s (Suc e) j \<Longrightarrow> j \<in> {e + 3..e + 5}"
    by (auto simp: digits_run_def)
  then show ?thesis by blast
qed

lemma episodePattern_at:
  "ms episodePattern s (i, c) \<noteq> [] \<longleftrightarrow> episode_token_at s i"
proof -
  have "ms episodePattern s (i, c) \<noteq> [] \<longleftrightarrow>
      (word_boundary s i \<and> (\<exists>k. season_letter_at s i k \<and> (\<exists>e. digits_run s k e \<and> episode_letter_at s e
         \<and> (\<exists>j. digits_run s (Suc e) j \<and> word_boundary s j))))"
    unfolding nonempty_iff_mem episodePattern_def cat_unfold
    by (simp del: ms.simps add: set_ms_Seq set_ms_WordB set_ms_fold_S set_ms_fold_E set_ms_digits) blast
  then show ?thesis
    unfolding episode_token_at_def
    by (simp only: season_letter_Bex[symmetric] digits_run_Bex[symmetric] digits_run_Suc_Bex[symmetric])
qed

lemma has_episode_token_iff: "MatchString episodePattern s \<longleftrightarrow> has_episode_token s"
  by (simp only: MatchString_iff episodePattern_at has_episode_token_def)

lemma set_ms_lit:
  "(j, c') \<in> set (ms (lit l) s (i, c)) \<longleftrightarrow> c' = c \<and> j = Suc i \<and> i < length s \<and> s ! i = l"
  by (auto simp: lit_def)

lemma set_ms_Grp:
  "(j, c') \<in> set (ms (Grp k a) s (i, c)) \<longleftrightarrow> (\<exists>c0. c' = (k, i, j) # c0 \<and> (j, c0) \<in> set (ms a s (i, c)))"
  by auto

lemma set_ms_two_digits:
  "(j, c') \<in> set (ms (Rep 2 2 is_digit) s (i, c)) \<longleftrightarrow>
     c' = c \<and> j = i + 2 \<and> j \<le> length s \<and> is_digit (s ! i) \<and> is_digit (s ! Suc i)"
proof -
  have "{i..<i + 2} = {i, Suc i}" by auto
  then show ?thesis by (subst set_ms_Rep) auto
qed

lemma isoYearPattern_at:
  "ms isoYearPattern s (i, c) \<noteq> [] \<longleftrightarrow> year_token_at s i"
proof -
  have "ms isoYearPattern s (i, c) \<noteq> [] \<longleftrightarrow>
      (word_boundary s i \<and> (\<exists>k. season_letter_at s i k
            \<and> k + 4 \<le> length s \<and> s ! k = CHR ''2'' \<and> s ! (k + 1) = CHR ''0''
            \<and> is_digit (s ! (k + 2)) \<and> is_digit (s ! (k + 3)) \<and> word_boundary s (k + 4)))"
    unfolding nonempty_iff_mem isoYearPattern_def cat_unfold
    apply (simp del: ms.simps add: set_ms_Seq set_ms_WordB set_ms_fold_S set_ms_lit set_ms_Grp set_ms_two_digits)
    apply (rule conj_cong[OF refl], rule ex_cong1)
    apply (subgoal_tac "k + 3 = Suc (Suc (Suc k)) \<and> k + 4 = Suc (Suc (Suc (Suc k)))")
     apply (erule conjE, simp only:)
     apply fastforce
    apply simp
    done
  then show ?thesis
    unfolding year_token_at_def
    by (simp only: season_letter_Bex[symmetric])
qed

lemma has_year_token_iff: "MatchString isoYearPattern s \<longleftrightarrow> has_year_token s"
  by (simp only: MatchString_iff isoYearPattern_at has_year_token_def)

lemma isSeasonPack_iff:
  "isSeasonPack s \<longleftrightarrow> (has_season_token s \<and> \<not> has_episode_token s) \<or> has_year_token s"
  by (simp add: isSeasonPack_def has_season_token_iff has_episode_token_iff has_year_token_iff)

subsection \<open>Pack detection by name\<close>

text \<open>
  Claim C2, as stated, fails: a name may hold a standalone season token and, elsewhere,
  an episode token, and is then not a pack by the first rule.
\<close>

theorem season_token_beside_episode_token_counterexample:
  "season_token_at ''Show.S01.S01E05'' 5 \<and> slice ''Show.S01.S01E05'' 5 9 = ''S01.''
   \<and> \<not> isSeasonPack ''Show.S01.S01E05''"
  by code_simp

text \<open>
  Claim C2, amended. A name with a standalone season token and with no standalone
  episode token anywhere is a season pack; the name \<^verbatim>\<open>S01E05\<close> is not.
\<close>

theorem season_token_without_episode_token_is_pack:
  "(has_season_token s \<and> \<not> has_episode_token s \<longrightarrow> isSeasonPack s)
   \<and> \<not> isSeasonPack ''S01E05''"
proof -
  have "\<not> isSeasonPack ''S01E05''" by code_simp
  then show ?thesis by (simp add: isSeasonPack_iff)
qed

theorem season_token_without_episode_token_is_pack_witness:
  "has_season_token ''Show.S01.1080p'' \<and> \<not> has_episode_token ''Show.S01.1080p''
   \<and> isSeasonPack ''Show.S01.1080p''"
proof -
  have "MatchString seasonPattern ''Show.S01.1080p''
      \<and> \<not> MatchString episodePattern ''Show.S01.1080p''"
    by code_simp
  then have h: "has_season_token ''Show.S01.1080p'' \<and> \<not> has_episode_token ''Show.S01.1080p''"
    using has_season_token_iff has_episode_token_iff by blast
  with season_token_without_episode_token_is_pack[of "''Show.S01.1080p''"]
  show ?thesis by blast
qed

text \<open>
  Claim C3, as stated, fails on its own example: in \<^verbatim>\<open>Show.S2024E01\<close> the letters
  \<^verbatim>\<open>S2024\<close> are followed by a word character, so no pattern of \<^verbatim>\<open>isSeasonPack\<close>
  matches.
\<close>

theorem year_token_before_episode_counterexample:
  "slice ''Show.S2024E01'' 5 10 = ''S2024'' \<and> \<not> isSeasonPack ''Show.S2024E01''"
  by code_simp

text \<open>
  Claim C3, amended. A name with a standalone year token (\<^verbatim>\<open>S20\<close> and two digits
  between two word boundaries) is a season pack, whatever else the name holds, also an
  episode token.
\<close>

theorem year_token_is_pack:
  "has_year_token s \<longrightarrow> isSeasonPack s"
  by (simp add: isSeasonPack_iff)

theorem year_token_is_pack_witness:
  "has_year_token ''Show.S2024.S01E01'' \<and> has_episode_token ''Show.S2024.S01E01''
   \<and> isSeasonPack ''Show.S2024.S01E01''"
proof -
  have "MatchString isoYearPattern ''Show.S2024.S01E01''
      \<and> MatchString episodePattern ''Show.S2024.S01E01''"
    by code_simp
  then have h: "has_year_token ''Show.S2024.S01E01'' \<and> has_episode_token ''Show.S2024.S01E01''"
    using has_year_token_iff has_episode_token_iff by blast
  with year_token_is_pack[of "''Show.S2024.S01E01''"]
  show ?thesis by blast
qed

subsection \<open>The rejected subdirectory\<close>

text \<open>
  Claim C5. In the subdirectory layout an all-lower-case directory name that agrees with
  the pack's prefix is rejected with an empty release name; the unit returned still
  carries the key that was assigned before the test.
\<close>

theorem rejected_subdirectory_keeps_key:
  "ReleaseName (extractEpisodeInfo example_fs
       \<lparr>Path = ''/dl/Show.S01/show.s01e03/a.mkv'', Dir = ''/dl/Show.S01/show.s01e03'',
        Name = ''a.mkv''\<rparr> ''Show.S01'' []) = []
   \<and> EpisodeNum (extractEpisodeInfo example_fs
       \<lparr>Path = ''/dl/Show.S01/show.s01e03/a.mkv'', Dir = ''/dl/Show.S01/show.s01e03'',
        Name = ''a.mkv''\<rparr> ''Show.S01'' []) = ''E03''"
  by code_simp

subsection \<open>Release names in the shared-directory layout\<close>

lemma slice_length: "j \<le> length s \<Longrightarrow> length (slice s i j) = j - i"
  by (auto simp: slice_def)

lemma slice_nth: "j \<le> length s \<Longrightarrow> t < j - i \<Longrightarrow> slice s i j ! t = s ! (i + t)"
  by (simp add: slice_def)

lemma digits_run_slice:
  assumes "digits_run s i j"
  shows "2 \<le> length (slice s i j)" "length (slice s i j) \<le> 4" "\<forall>r\<in>set (slice s i j). is_digit r"
proof -
  from assms have b: "i + 2 \<le> j" "j \<le> i + 4" "j \<le> length s" and d: "\<forall>k\<in>{i..<j}. is_digit (s ! k)"
    by (auto simp: digits_run_def)
  from b show "2 \<le> length (slice s i j)" "length (slice s i j) \<le> 4"
    by (simp_all add: slice_length)
  show "\<forall>r\<in>set (slice s i j). is_digit r"
  proof
    fix r assume "r \<in> set (slice s i j)"
    then obtain t where t: "t < length (slice s i j)" "r = slice s i j ! t"
      by (metis in_set_conv_nth)
    with b have "t < j - i" by (simp add: slice_length)
    with t b d show "is_digit r" by (simp add: slice_nth)
  qed
qed





subsection \<open>Paths and walks\<close>

lemma split_at_no_sep: "c \<notin> set n \<Longrightarrow> split_at c n = [n]"
  by (induction n) (auto simp: Let_def)

lemma split_at_nonempty: "split_at c xs \<noteq> []"
  by (induction xs) (auto simp: Let_def)

lemma split_at_append:
  "split_at c (xs @ c # ys) = split_at c xs @ split_at c ys"
proof (induction xs)
  case Nil then show ?case by simp
next
  case (Cons x xs)
  then show ?case using split_at_nonempty[of c xs]
    by (cases "split_at c xs") (auto simp: Let_def)
qed

lemma clean_elems_snoc:
  assumes "valid_name n"
  shows "\<exists>ys. clean_elems rooted out (xs @ [n]) = ys @ [n]"
proof (induction xs arbitrary: out)
  case Nil
  from assms show ?case by (simp add: valid_name_def)
next
  case (Cons x xs)
  then show ?case by (cases rooted) auto
qed

lemma join_with_snoc:
  "join_with sep (ys @ [n]) = (if ys = [] then n else join_with sep ys @ sep @ n)"
  by (induction sep ys rule: join_with.induct) auto

lemma last_elem_append:
  assumes "CHR ''/'' \<notin> set n" "q = [] \<or> last q = CHR ''/''"
  shows "last_elem (q @ n) = n"
proof -
  have a: "takeWhile (\<lambda>c. c \<noteq> CHR ''/'') (rev n) = rev n"
    using assms(1) by (auto simp: takeWhile_eq_all_conv)
  have b: "takeWhile (\<lambda>c. c \<noteq> CHR ''/'') (rev q) = []"
    using assms(2) by (cases q rule: rev_cases) auto
  have "takeWhile (\<lambda>c. c \<noteq> CHR ''/'') (rev n @ rev q) = rev n"
    using assms(1) b by (subst takeWhile_append2) auto
  then show ?thesis by (simp add: last_elem_def)
qed

lemma last_elem_Clean_snoc:
  assumes "valid_name n" "path = a @ ''/'' @ n \<or> path = n"
  shows "last_elem (Clean path) = n"
proof -
  from assms have ne: "path \<noteq> []" and ns: "CHR ''/'' \<notin> set n" by (auto simp: valid_name_def)
  from assms(2) ns have "\<exists>xs. split_at CHR ''/'' path = xs @ [n]"
    using split_at_append[of "CHR ''/''" a n] by (auto simp: split_at_no_sep)
  then obtain xs where "split_at CHR ''/'' path = xs @ [n]" by blast
  with clean_elems_snoc[OF assms(1)] obtain ys
    where ys: "clean_elems (hd path = CHR ''/'') [] (split_at CHR ''/'' path) = ys @ [n]"
    by metis
  let ?pre = "(if hd path = CHR ''/'' then ''/'' else [])"
  let ?q = "?pre @ (if ys = [] then [] else join_with ''/'' ys @ ''/'')"
  have out: "?pre @ join_with ''/'' (ys @ [n]) = ?q @ n"
    by (simp add: join_with_snoc)
  have q: "?q = [] \<or> last ?q = CHR ''/''" by auto
  from assms(1) have "?q @ n \<noteq> []" by (simp add: valid_name_def)
  with ne ys out have "Clean path = ?q @ n" by (simp add: Clean_def Let_def)
  with last_elem_append[OF ns q] show ?thesis by simp
qed

lemma Ext_last_elem: "last_elem p = last_elem p' \<Longrightarrow> Ext p = Ext p'"
  by (simp add: Ext_def)

lemma Ext_Join:
  assumes "valid_name n"
  shows "Ext (Join a n) = Ext n"
proof -
  from assms have n: "n \<noteq> []" "CHR ''/'' \<notin> set n" by (auto simp: valid_name_def)
  have "last_elem (Join a n) = n"
  proof (cases "a = []")
    case True
    with n have "Join a n = Clean n" by (simp add: Join_def)
    with last_elem_Clean_snoc[OF assms, of n] show ?thesis by simp
  next
    case False
    with n have "Join a n = Clean (a @ ''/'' @ n)" by (simp add: Join_def)
    with last_elem_Clean_snoc[OF assms, of "a @ ''/'' @ n" a] show ?thesis by simp
  qed
  moreover have "last_elem n = n" using last_elem_append[OF n(2), of "[]"] by simp
  ultimately show ?thesis by (simp add: Ext_last_elem)
qed

lemma findAllVideoFiles_fn_simps:
  "findAllVideoFiles_fn path d (Some e) acc = (acc, Some e)"
  "findAllVideoFiles_fn path (Some (DirNode n ents failed)) None acc = (acc, None)"
  "findAllVideoFiles_fn path (Some (FileNode n sz)) None acc = (acc @ video_files path (FileNode n sz), None)"
  by (simp_all add: findAllVideoFiles_fn_def)

lemma walk_video:
  "\<exists>xs e. walkDir path node findAllVideoFiles_fn acc = (acc @ xs, e)
      \<and> prefix xs (video_files path node) \<and> (e = None \<longleftrightarrow> no_read_error node)
      \<and> (e = None \<longrightarrow> xs = video_files path node) \<and> e \<noteq> Some SkipDir \<and> e \<noteq> Some SkipAll"
  "\<exists>xs e. walkEntries path ents findAllVideoFiles_fn acc = (acc @ xs, e)
      \<and> prefix xs (video_files_in path ents) \<and> (e = None \<longleftrightarrow> no_read_errors ents)
      \<and> (e = None \<longrightarrow> xs = video_files_in path ents) \<and> e \<noteq> Some SkipDir \<and> e \<noteq> Some SkipAll"
proof (induction path node "findAllVideoFiles_fn" acc and path ents "findAllVideoFiles_fn" acc
       rule: walkDir_walkEntries.induct)
  case (1 path n sz acc)
  show ?case by (simp add: findAllVideoFiles_fn_simps)
next
  case (2 path n ents failed acc)
  show ?case
  proof (cases failed)
    case True
    then show ?thesis by (simp add: findAllVideoFiles_fn_simps)
  next
    case False
    with "2"(2)[of acc None] show ?thesis
      by (simp add: findAllVideoFiles_fn_simps)
  qed
next
  case (3 path acc)
  show ?case by simp
next
  case (4 path d1 ds acc)
  from "4"(1) obtain xs e
    where w: "walkDir (Join path (node_name d1)) d1 findAllVideoFiles_fn acc = (acc @ xs, e)"
      and p: "prefix xs (video_files (Join path (node_name d1)) d1)"
      and ok: "e = None \<longleftrightarrow> no_read_error d1"
      and full: "e = None \<longrightarrow> xs = video_files (Join path (node_name d1)) d1"
      and ns: "e \<noteq> Some SkipDir" "e \<noteq> Some SkipAll"
    by blast
  show ?case
  proof (cases e)
    case None
    from w None have w': "(acc @ xs, None) = walkDir (Join path (node_name d1)) d1 findAllVideoFiles_fn acc"
      by simp
    from "4"(2)[OF w' refl] obtain ys e'
      where w2: "walkEntries path ds findAllVideoFiles_fn (acc @ xs) = ((acc @ xs) @ ys, e')"
        and p2: "prefix ys (video_files_in path ds)"
        and ok2: "e' = None \<longleftrightarrow> no_read_errors ds"
        and full2: "e' = None \<longrightarrow> ys = video_files_in path ds"
        and ns2: "e' \<noteq> Some SkipDir" "e' \<noteq> Some SkipAll"
      by blast
    from None w w2 have "walkEntries path (d1 # ds) findAllVideoFiles_fn acc = (acc @ (xs @ ys), e')"
      by simp
    moreover from None full p2 have "prefix (xs @ ys) (video_files_in path (d1 # ds))"
      by simp
    ultimately show ?thesis using ok ok2 full full2 ns2 None by auto
  next
    case (Some err)
    with w ns have "walkEntries path (d1 # ds) findAllVideoFiles_fn acc = (acc @ xs, Some err)"
      by simp
    moreover from p have "prefix xs (video_files_in path (d1 # ds))"
      by (simp add: prefix_def) (metis append.assoc)
    ultimately show ?thesis using ok Some ns by auto
  qed
qed





lemma count_video_files:
  "valid_name n \<Longrightarrow> length (video_files (Join path n) (FileNode n sz)) = count_video (FileNode n sz)"
  by (simp add: Ext_Join is_video_name_def)

lemma length_video_files:
  "valid_trees ents \<Longrightarrow> length (video_files path (DirNode n ents failed)) = count_video_in ents"
  "valid_trees ents \<Longrightarrow> length (video_files_in path ents) = count_video_in ents"
proof (induction path "DirNode n ents failed" and path ents arbitrary: n ents failed rule: video_files_video_files_in.induct)
  case (2 path n ents failed)
  then show ?case by simp
next
  case (3 path)
  then show ?case by simp
next
  case (4 path d ds)
  show ?case
  proof (cases d)
    case (FileNode m sz)
    with 4 show ?thesis by (simp add: count_video_files del: video_files.simps count_video.simps)
  next
    case (DirNode m es f)
    with 4 show ?thesis by simp
  qed
qed

lemma findAllVideoFiles_missing:
  "Stat fs dir = None \<Longrightarrow> findAllVideoFiles fs dir = ([], Some (LstatError dir))"
  by (simp add: findAllVideoFiles_def WalkDir_def findAllVideoFiles_fn_simps)


lemma findAllVideoFiles_root:
  assumes "Stat fs dir = Some root"
  shows "\<exists>xs e. findAllVideoFiles fs dir = (xs, e) \<and> prefix xs (video_files dir root)
           \<and> (e = None \<longleftrightarrow> no_read_error root) \<and> (e = None \<longrightarrow> xs = video_files dir root)"
proof -
  from walk_video(1)[of dir root "[]"] obtain xs e
    where w: "walkDir dir root findAllVideoFiles_fn [] = (xs, e)"
      and p: "prefix xs (video_files dir root)" "e = None \<longleftrightarrow> no_read_error root"
        "e = None \<longrightarrow> xs = video_files dir root" "e \<noteq> Some SkipDir" "e \<noteq> Some SkipAll"
    by auto
  from w p(4,5) assms have "findAllVideoFiles fs dir = (xs, e)"
    by (cases e) (auto simp: findAllVideoFiles_def WalkDir_def)
  with p show ?thesis by blast
qed


subsection \<open>The fallback classifier\<close>

text \<open>
  Claim C4, as stated, fails: when a directory of the tree cannot be read the walk
  returns an error and the classifier answers false, however many video files the tree
  holds.
\<close>

theorem fallback_unreadable_counterexample:
  "count_video_in unreadable_pack = 3 \<and> \<not> isSeasonPackFallback unreadable_fs ''/dl/Pack''"
  by code_simp

text \<open>
  Claim C4, amended. For a directory whose tree is read without error, the fallback
  classifier answers true exactly when the tree holds at least three video files (by
  extension, audio extensions excluded), whatever the release name; when a directory
  of the tree cannot be read, or the directory is missing, it answers false.
\<close>

theorem fallback_counts_videos:
  "(Stat fs finalDir = Some (DirNode n ents failed) \<and> valid_trees ents
      \<longrightarrow> (isSeasonPackFallback fs finalDir
            \<longleftrightarrow> no_read_error (DirNode n ents failed) \<and> 3 \<le> count_video_in ents))
   \<and> (Stat fs finalDir = None \<longrightarrow> \<not> isSeasonPackFallback fs finalDir)"
proof (intro conjI impI)
  assume a: "Stat fs finalDir = Some (DirNode n ents failed) \<and> valid_trees ents"
  from findAllVideoFiles_root[of fs finalDir "DirNode n ents failed"] a obtain xs e
    where f: "findAllVideoFiles fs finalDir = (xs, e)"
      and p: "e = None \<longleftrightarrow> no_read_error (DirNode n ents failed)"
        "e = None \<longrightarrow> xs = video_files finalDir (DirNode n ents failed)"
    by blast
  show "isSeasonPackFallback fs finalDir
      \<longleftrightarrow> no_read_error (DirNode n ents failed) \<and> 3 \<le> count_video_in ents"
  proof (cases e)
    case None
    with p a length_video_files(1)[of ents finalDir n failed]
    have "length xs = count_video_in ents" by simp
    with None f p show ?thesis by (simp add: isSeasonPackFallback_def)
  next
    case (Some err)
    with f p show ?thesis by (auto simp: isSeasonPackFallback_def)
  qed
next
  assume "Stat fs finalDir = None"
  then show "\<not> isSeasonPackFallback fs finalDir"
    by (simp add: isSeasonPackFallback_def findAllVideoFiles_missing)
qed

theorem fallback_counts_videos_witness:
  "isSeasonPackFallback example_fs ''/dl/Show.S01''
   \<and> count_video_in example_pack = 3
   \<and> \<not> isSeasonPackFallback vanished_fs ''/dl/Pack''
   \<and> \<not> isSeasonPackFallback example_fs ''/missing''"
proof -
  have a: "Stat example_fs ''/dl/Show.S01'' = Some (DirNode ''Show.S01'' example_pack False)
      \<and> valid_trees example_pack"
    and a': "no_read_error (DirNode ''Show.S01'' example_pack False)"
      "count_video_in example_pack = 3"
    by code_simp+
  let ?two = "[FileNode ''a.mkv'' (Some 10), FileNode ''b.nfo'' None, FileNode ''c.mkv'' (Some 30)]"
  have b: "Stat vanished_fs ''/dl/Pack'' = Some (DirNode ''Pack'' ?two False) \<and> valid_trees ?two"
    and b': "count_video_in ?two = 2"
    by code_simp+
  have c: "Stat example_fs ''/missing'' = None"
    by code_simp
  from fallback_counts_videos[of example_fs "''/dl/Show.S01''" "''Show.S01''" example_pack False] a a'
  have "isSeasonPackFallback example_fs ''/dl/Show.S01''" by simp
  moreover
  from fallback_counts_videos[of vanished_fs "''/dl/Pack''" "''Pack''" ?two False] b b'
  have "\<not> isSeasonPackFallback vanished_fs ''/dl/Pack''" by simp
  moreover
  from fallback_counts_videos[of example_fs "''/missing''"] c
  have "\<not> isSeasonPackFallback example_fs ''/missing''" by simp
  ultimately show ?thesis using a' by simp
qed

subsection \<open>Errors during a walk\<close>




subsection \<open>The file list of an episode in a shared directory\<close>

lemma findRelatedFiles_loop_entries:
  "\<exists>xs. findRelatedFiles_loop dir baseDir videoPath episodeNum ents acc = acc @ xs
     \<and> (\<forall>e\<in>set xs. \<exists>entry\<in>set ents. related_entry dir baseDir videoPath episodeNum entry e)"
proof (induction ents arbitrary: acc)
  case Nil
  show ?case by simp
next
  case (Cons entry rest)
  let ?name = "node_name entry"
  show ?case
  proof (cases "\<not> IsDir entry \<and> ?name \<noteq> Base videoPath
      \<and> isRelatedFileByEpisode (TrimSuffix ?name (Ext ?name)) episodeNum
      \<and> Info entry \<noteq> None \<and> (\<exists>r. Rel baseDir (Join dir ?name) = Inr r)")
    case True
    then obtain sz r where i: "Info entry = Some sz" and r: "Rel baseDir (Join dir ?name) = Inr r"
      by auto
    let ?e = "\<lparr>FilePath = ToSlash r, FileSizeBytes = sz\<rparr>"
    from True i r have step: "findRelatedFiles_loop dir baseDir videoPath episodeNum (entry # rest) acc
        = findRelatedFiles_loop dir baseDir videoPath episodeNum rest (acc @ [?e])"
      by (simp add: Let_def)
    from Cons.IH[of "acc @ [?e]"] obtain xs
      where xs: "findRelatedFiles_loop dir baseDir videoPath episodeNum rest (acc @ [?e]) = (acc @ [?e]) @ xs"
        and rel: "\<forall>e\<in>set xs. \<exists>entry\<in>set rest. related_entry dir baseDir videoPath episodeNum entry e"
      by blast
    from True i r have "related_entry dir baseDir videoPath episodeNum entry ?e"
      by (simp add: related_entry_def isRelatedFileByEpisode_def ToSlash_def)
    with rel have "\<forall>e\<in>set (?e # xs). \<exists>en\<in>set (entry # rest). related_entry dir baseDir videoPath episodeNum en e"
      by auto
    moreover from step xs have "findRelatedFiles_loop dir baseDir videoPath episodeNum (entry # rest) acc
        = acc @ (?e # xs)" by simp
    ultimately show ?thesis by blast
  next
    case False
    then have step: "findRelatedFiles_loop dir baseDir videoPath episodeNum (entry # rest) acc
        = findRelatedFiles_loop dir baseDir videoPath episodeNum rest acc"
      by (auto simp: Let_def split: option.splits sum.splits)
    from Cons.IH[of acc] obtain xs
      where "findRelatedFiles_loop dir baseDir videoPath episodeNum rest acc = acc @ xs"
        and "\<forall>e\<in>set xs. \<exists>entry\<in>set rest. related_entry dir baseDir videoPath episodeNum entry e"
      by blast
    with step show ?thesis by auto
  qed
qed

lemma Stat_Info: "Stat fs path = Some n \<Longrightarrow> \<exists>sz. Info n = Some sz"
  by (auto simp: Stat_def split: option.splits if_splits)

lemma findRelatedFiles_entries:
  assumes "findRelatedFiles fs dir videoBaseName videoPath = (entries, None)"
  shows "\<exists>videoInfo sz relPath rest.
        Stat fs videoPath = Some videoInfo \<and> Info videoInfo = Some sz
      \<and> Rel (Clean dir) videoPath = Inr relPath
      \<and> entries = \<lparr>FilePath = ToSlash relPath, FileSizeBytes = sz\<rparr> # rest
      \<and> (\<forall>e\<in>set rest. extractEpisodeNumber videoBaseName \<noteq> []
            \<and> (\<exists>entry\<in>set (fst (ReadDir fs dir)).
                 related_entry dir (Clean dir) videoPath (extractEpisodeNumber videoBaseName) entry e))"
proof -
  from assms obtain videoInfo relPath where s: "Stat fs videoPath = Some videoInfo"
    and r: "Rel (Clean dir) videoPath = Inr relPath"
    by (auto simp: findRelatedFiles_def Let_def split: option.splits sum.splits)
  from Stat_Info[OF s] obtain sz where i: "Info videoInfo = Some sz" by blast
  let ?v = "\<lparr>FilePath = ToSlash relPath, FileSizeBytes = sz\<rparr>"
  let ?num = "extractEpisodeNumber videoBaseName"
  show ?thesis
  proof (cases "?num = []")
    case True
    with assms s r i have "entries = [?v]"
      by (simp add: findRelatedFiles_def Let_def)
    with s r i show ?thesis by simp
  next
    case False
    with assms s r i obtain dirEntries where rd: "ReadDir fs dir = (dirEntries, None)"
      and en: "entries = findRelatedFiles_loop dir (Clean dir) videoPath ?num dirEntries [?v]"
      by (auto simp: findRelatedFiles_def Let_def split: prod.splits option.splits)
    from findRelatedFiles_loop_entries[of dir "Clean dir" videoPath ?num dirEntries "[?v]"] en
    obtain xs where "entries = ?v # xs"
      and "\<forall>e\<in>set xs. \<exists>entry\<in>set dirEntries. related_entry dir (Clean dir) videoPath ?num entry e"
      by auto
    with s r i rd False show ?thesis by simp
  qed
qed

text \<open>
  Claim C6, as stated, fails: the files beside the video are chosen by
  \<^verbatim>\<open>extractEpisodeNumber\<close>, whose pattern also accepts a bare \<^verbatim>\<open>Exx\<close>, so a file
  without a key in the sense of section 4.3 is listed.
\<close>

theorem related_file_without_key_counterexample:
  "fst (createEpisodeFileList example_fs
          (extractEpisodeInfo example_fs example_video ''Show.S01'' []))
     = [\<lparr>FilePath = ''Show.S01E02.mkv'', FileSizeBytes = 200\<rparr>,
        \<lparr>FilePath = ''Show.E02.srt'', FileSizeBytes = 7\<rparr>]
   \<and> EpisodeNum (extractEpisodeInfo example_fs example_video ''Show.S01'' []) = ''E02''
   \<and> spec_episode_key ''Show.E02'' = None"
  by code_simp

text \<open>
  Claim C6, amended. When more than one video file of the pack lies in the unit's
  directory and the list is built without error, its first entry is the unit's video
  file, and every other entry is a non-directory entry of that same directory, not the
  video file itself, whose base name gives, by \<^verbatim>\<open>extractEpisodeNumber\<close> (an
  \<^verbatim>\<open>SxxExx\<close> or a bare \<^verbatim>\<open>Exx\<close>), the same non-empty episode number up to case as
  the base name of the video file.
\<close>

theorem related_files_share_extracted_number:
  assumes "createEpisodeFileList fs episodeInfo = (entries, None)"
    and "1 < length (filter (\<lambda>vf. Dir vf = Dir (VideoFile episodeInfo))
                  (fst (findAllVideoFiles fs (filepath_Dir (Dir (VideoFile episodeInfo))))))"
    and "videoBaseName = TrimSuffix (Name (VideoFile episodeInfo)) (Ext (Name (VideoFile episodeInfo)))"
  shows "\<exists>videoInfo sz relPath rest.
        Stat fs (Path (VideoFile episodeInfo)) = Some videoInfo \<and> Info videoInfo = Some sz
      \<and> Rel (Clean (Dir (VideoFile episodeInfo))) (Path (VideoFile episodeInfo)) = Inr relPath
      \<and> entries = \<lparr>FilePath = ToSlash relPath, FileSizeBytes = sz\<rparr> # rest
      \<and> (\<forall>e\<in>set rest. extractEpisodeNumber videoBaseName \<noteq> []
            \<and> (\<exists>entry\<in>set (fst (ReadDir fs (Dir (VideoFile episodeInfo)))).
                 related_entry (Dir (VideoFile episodeInfo)) (Clean (Dir (VideoFile episodeInfo)))
                   (Path (VideoFile episodeInfo)) (extractEpisodeNumber videoBaseName) entry e))"
proof -
  from assms have "findRelatedFiles fs (Dir (VideoFile episodeInfo)) videoBaseName
         (Path (VideoFile episodeInfo)) = (entries, None)"
    by (auto simp: createEpisodeFileList_def Let_def split: prod.splits option.splits if_splits)
  from findRelatedFiles_entries[OF this] show ?thesis .
qed

theorem related_files_share_extracted_number_witness:
  "\<exists>rest. fst (createEpisodeFileList example_fs
            \<lparr>VideoFile = example_video, EpisodeNum = ''E02'', ReleaseName = ''Show.S01E02'',
             NFOFile = []\<rparr>)
       = \<lparr>FilePath = ''Show.S01E02.mkv'', FileSizeBytes = 200\<rparr> # rest"
proof -
  let ?u = "\<lparr>VideoFile = example_video, EpisodeNum = ''E02'', ReleaseName = ''Show.S01E02'',
             NFOFile = []\<rparr>"
  obtain entries where e: "createEpisodeFileList example_fs ?u = (entries, None)"
  proof -
    have "snd (createEpisodeFileList example_fs ?u) = None" by code_simp
    then show ?thesis using that by (cases "createEpisodeFileList example_fs ?u") auto
  qed
  have c: "1 < length (filter (\<lambda>vf. Dir vf = Dir (VideoFile ?u))
                  (fst (findAllVideoFiles example_fs (filepath_Dir (Dir (VideoFile ?u))))))"
    by code_simp
  have n: "''Show.S01E02'' = TrimSuffix (Name (VideoFile ?u)) (Ext (Name (VideoFile ?u)))"
    by code_simp
  have s: "Stat example_fs (Path (VideoFile ?u)) = Some (FileNode ''Show.S01E02.mkv'' (Some 200))"
    and r: "Rel (Clean (Dir (VideoFile ?u))) (Path (VideoFile ?u)) = Inr ''Show.S01E02.mkv''"
    by code_simp+
  from related_files_share_extracted_number[OF e c n] s r
  obtain rest where "entries = \<lparr>FilePath = ''Show.S01E02.mkv'', FileSizeBytes = 200\<rparr> # rest"
    by (auto simp: ToSlash_def)
  with e show ?thesis by simp
qed

subsection \<open>The key of a synthesized release name\<close>

lemma exec_eqI:
  assumes "pos \<le> i" "i \<le> length s" "\<forall>k. pos \<le> k \<and> k < i \<longrightarrow> ms r s (k, []) = []"
    "ms r s (i, []) = (j, c) # rest"
  shows "exec r s pos = Some (i, j, c)"
proof -
  let ?P = "\<lambda>i. ms r s (i, []) \<noteq> []"
  have l: "[pos ..< Suc (length s)] ! (i - pos) = i" "i - pos < length [pos ..< Suc (length s)]"
    using assms(1,2) by (simp_all del: upt_Suc)
  have "\<forall>t<i - pos. \<not> ?P ([pos ..< Suc (length s)] ! t)"
  proof (intro allI impI)
    fix t assume t: "t < i - pos"
    then have "[pos ..< Suc (length s)] ! t = pos + t" using assms(2) by (simp del: upt_Suc)
    with t assms(3) show "\<not> ?P ([pos ..< Suc (length s)] ! t)" by simp
  qed
  with l assms(4) have "List.find ?P [pos ..< Suc (length s)] = Some i"
    by (subst find_Some_iff) (rule exI[of _ "i - pos"], simp del: upt_Suc)
  with assms(4) show ?thesis by (simp add: exec_def)
qed

lemma exec_exists:
  assumes "pos \<le> i" "i \<le> length s" "ms r s (i, []) \<noteq> []"
  shows "\<exists>i0 j c. exec r s pos = Some (i0, j, c) \<and> i0 \<le> i"
proof -
  let ?P = "\<lambda>k. pos \<le> k \<and> ms r s (k, []) \<noteq> []"
  define i0 where "i0 = (LEAST k. ?P k)"
  from assms have "?P i" by simp
  then have p: "?P i0" and le: "i0 \<le> i" unfolding i0_def by (rule LeastI, rule Least_le)
  have "\<forall>k. pos \<le> k \<and> k < i0 \<longrightarrow> ms r s (k, []) = []"
    unfolding i0_def using not_less_Least by blast
  moreover from p obtain j c rest where "ms r s (i0, []) = (j, c) # rest"
    by (cases "ms r s (i0, [])") auto
  ultimately have "exec r s pos = Some (i0, j, c)"
    using exec_eqI[of pos i0 s r j c rest] p le assms(2) by simp
  with le show ?thesis by blast
qed

lemma seasonTokenPattern_mem:
  "(j, c') \<in> set (ms seasonTokenPattern s (i, c)) \<longleftrightarrow>
     word_boundary s i \<and> (\<exists>k. season_letter_at s i k \<and> digits_run s k j \<and> c' = (1, k, j) # c)
     \<and> word_boundary s j"
  unfolding seasonTokenPattern_def cat_unfold
  by (simp del: ms.simps add: set_ms_Seq set_ms_WordB set_ms_fold_S set_ms_Grp set_ms_digits) blast

lemma seasonTokenPattern_at:
  "ms seasonTokenPattern s (i, c) \<noteq> [] \<longleftrightarrow> season_token_at s i"
proof -
  have "ms seasonTokenPattern s (i, c) \<noteq> [] \<longleftrightarrow>
      (word_boundary s i \<and> (\<exists>k. season_letter_at s i k \<and> (\<exists>j. digits_run s k j \<and> word_boundary s j)))"
    unfolding nonempty_iff_mem seasonTokenPattern_mem by blast
  then show ?thesis
    unfolding season_token_at_def
    by (simp only: season_letter_Bex[symmetric] digits_run_Bex[symmetric])
qed

text \<open>The first match of a pattern at a position, as the search takes it.\<close>

definition first_match :: "re \<Rightarrow> string \<Rightarrow> nat \<times> caps \<Rightarrow> nat \<times> caps \<Rightarrow> bool" where
  "first_match r s st x = (\<exists>zs. ms r s st = x # zs)"

lemma fm_Seq: "first_match a s st x \<Longrightarrow> first_match b s x y \<Longrightarrow> first_match (Seq a b) s st y"
  by (auto simp: first_match_def)

lemma fm_Alt1: "first_match a s st x \<Longrightarrow> first_match (Alt a b) s st x"
  by (auto simp: first_match_def)

lemma fm_Grp: "first_match a s (i, c) (j, c') \<Longrightarrow> first_match (Grp k a) s (i, c) (j, (k, i, j) # c')"
  by (auto simp: first_match_def)

lemma fm_Chr: "i < length s \<Longrightarrow> p (s ! i) \<Longrightarrow> first_match (Chr p) s (i, c) (Suc i, c)"
  by (auto simp: first_match_def)

lemma fm_fold_S: "i < length s \<Longrightarrow> s ! i = CHR ''S'' \<Longrightarrow> first_match (fold_lit CHR ''S'') s (i, c) (Suc i, c)"
  by (auto simp: first_match_def fold_lit_def)

lemma fm_fold_E: "i < length s \<Longrightarrow> s ! i = CHR ''E'' \<Longrightarrow> first_match (fold_lit CHR ''E'') s (i, c) (Suc i, c)"
  by (auto simp: first_match_def fold_lit_def)

lemma takeWhile_take_run:
  assumes "\<forall>r\<in>set xs. p r" "length xs \<le> n" "length xs = n \<or> ys = [] \<or> \<not> p (hd ys)"
  shows "takeWhile p (take n (xs @ ys)) = xs"
proof -
  have "take n (xs @ ys) = xs @ take (n - length xs) ys" using assms(2) by simp
  moreover have "takeWhile p (take (n - length xs) ys) = []"
    using assms(3) by (cases ys; cases "n - length xs") auto
  ultimately show ?thesis using assms(1) by (simp add: takeWhile_append2)
qed

lemma rev_upt_hd: "m \<le> n \<Longrightarrow> \<exists>zs. rev [m ..< Suc n] = n # zs"
  by simp

lemma fm_Rep:
  assumes "drop i s = xs @ ys" "\<forall>r\<in>set xs. p r" "m \<le> length xs" "length xs \<le> n"
    "length xs = n \<or> ys = [] \<or> \<not> p (hd ys)"
  shows "first_match (Rep m n p) s (i, c) (i + length xs, c)"
proof -
  from assms(1) takeWhile_take_run[OF assms(2,4,5)] have "takeWhile p (take n (drop i s)) = xs"
    by simp
  moreover from rev_upt_hd[OF assms(3)] obtain zs where "rev [m ..< Suc (length xs)] = length xs # zs"
    by blast
  ultimately show ?thesis by (simp add: first_match_def del: upt_Suc)
qed

lemma FindString_digits:
  assumes "\<forall>r\<in>set pre. \<not> is_digit r" "\<forall>r\<in>set num. is_digit r" "2 \<le> length num" "length num \<le> 4"
  shows "FindString digitsPattern (pre @ num) = num"
proof -
  have none: "\<forall>k. 0 \<le> k \<and> k < length pre \<longrightarrow> ms digitsPattern (pre @ num) (k, []) = []"
  proof (intro allI impI)
    fix k assume k: "0 \<le> k \<and> k < length pre"
    then have "drop k (pre @ num) = pre ! k # drop (Suc k) pre @ num"
      by (simp add: Cons_nth_drop_Suc)
    moreover from k assms(1) have "\<not> is_digit (pre ! k)" by simp
    ultimately have "takeWhile is_digit (take 4 (drop k (pre @ num))) = []"
      by simp
    then show "ms digitsPattern (pre @ num) (k, []) = []"
      by (simp add: digitsPattern_def)
  qed
  have "first_match (Rep 2 4 is_digit) (pre @ num) (length pre, []) (length pre + length num, [])"
    using assms by (intro fm_Rep[where ys = "[]"]) simp_all
  then obtain zs where "ms digitsPattern (pre @ num) (length pre, []) = (length pre + length num, []) # zs"
    by (auto simp: first_match_def digitsPattern_def)
  from exec_eqI[OF _ _ none this]
  have "exec digitsPattern (pre @ num) 0 = Some (length pre, length pre + length num, [])"
    by simp
  then show ?thesis by (simp add: FindString_def slice_def)
qed

lemma replaceAll_first:
  assumes "exec r src 0 = Some (a0, a1, cp)" "a0 < a1"
  shows "\<exists>sp\<ge>a1. replaceAll r src repl 0 0 =
           take a0 src @ repl (slice src a0 a1) @ replaceAll r src repl sp a1"
proof -
  let ?sp = "(let width = rune_width (drop 0 src)
              in if 0 + width > a1 then 0 + width else if 0 + 1 > a1 then 0 + 1 else a1)"
  have "a1 \<le> ?sp" by (simp add: Let_def)
  moreover have "replaceAll r src repl 0 0 =
      take a0 src @ repl (slice src a0 a1) @ replaceAll r src repl ?sp a1"
    using assms by (subst replaceAll.simps) (simp add: slice_def del: replaceAll.simps)
  ultimately show ?thesis by blast
qed

lemma boundary_after_digit:
  assumes "word_boundary s j" "0 < j" "j \<le> length s" "is_digit (s ! (j - 1))"
  shows "j = length s \<or> \<not> is_word (s ! j)"
  using assms by (auto simp: word_boundary_def is_word_def)

lemma replaceAll_rest_head:
  assumes "a1 \<le> sp" "a1 \<le> length c" "a1 = length c \<or> \<not> is_digit (c ! a1)"
    and repl: "\<And>m. repl m \<noteq> [] \<and> \<not> is_digit (hd (repl m))"
    and w: "0 < min_width r"
  shows "replaceAll r c repl sp a1 = [] \<or> \<not> is_digit (hd (replaceAll r c repl sp a1))"
proof (cases "sp \<le> length c")
  case False
  then have "replaceAll r c repl sp a1 = drop a1 c"
    by (subst replaceAll.simps) simp
  with assms(2,3) show ?thesis by (cases "a1 = length c") (simp_all add: hd_drop_conv_nth)
next
  case True
  show ?thesis
  proof (cases "exec r c sp")
    case None
    with True have "replaceAll r c repl sp a1 = drop a1 c"
      by (subst replaceAll.simps) simp
    with assms(2,3) show ?thesis by (cases "a1 = length c") (simp_all add: hd_drop_conv_nth)
  next
    case (Some m)
    then obtain b0 b1 cp where e: "exec r c sp = Some (b0, b1, cp)" by (cases m) auto
    from exec_SomeD[OF e] have b: "sp \<le> b0" "b0 \<le> length c" "(b1, cp) \<in> set (ms r c (b0, []))"
      by simp_all
    from ms_min_width[OF b(3)] w have lt: "b0 < b1" by simp
    with b(1) assms(1) have gt: "a1 < b1" by simp
    have "\<exists>tl. replaceAll r c repl sp a1 = slice c a1 b0 @ repl (slice c b0 b1) @ tl"
      using True e gt by (subst replaceAll.simps) (simp del: replaceAll.simps)
    then obtain tl where u: "replaceAll r c repl sp a1 = slice c a1 b0 @ repl (slice c b0 b1) @ tl"
      by blast
    show ?thesis
    proof (cases "b0 = a1")
      case True
      with u repl[of "slice c b0 b1"] show ?thesis by (simp add: slice_def)
    next
      case False
      with b(1) assms(1) have l: "a1 < b0" by simp
      with b(2) have "slice c a1 b0 \<noteq> []" "hd (slice c a1 b0) = c ! a1"
        by (simp_all add: slice_def hd_drop_conv_nth)
      moreover from l b(2) assms(3) have "\<not> is_digit (c ! a1)" by simp
      ultimately show ?thesis using u by simp
    qed
  qed
qed

lemma not_digit_simps [simp]:
  "\<not> is_digit CHR ''S''" "\<not> is_digit CHR ''s''" "\<not> is_digit CHR ''E''" "\<not> is_digit CHR ''e''"
  "\<not> is_digit CHR 0xC5" "\<not> is_digit CHR 0xBF"
  by (simp_all add: is_digit_nat)

lemma extract_pattern_needs_bare_episode:
  assumes "(j, c') \<in> set (ms extractEpisodeNumber_pattern s (k, c))"
  shows "\<exists>e. k \<le> e \<and> bare_episode_at s e \<and> (\<forall>t. k < t \<and> t \<le> e + 2 \<longrightarrow> s ! t \<noteq> CHR ''S'')"
proof -
  from assms have "(\<exists>k' e. season_letter_at s k k' \<and> digits_run s k' e \<and> episode_letter_at s e
                        \<and> digits_run s (Suc e) j)
      \<or> (episode_letter_at s k \<and> digits_run s (Suc k) j)"
    unfolding extractEpisodeNumber_pattern_def cat_unfold
    by (simp del: ms.simps add: ms.simps(5) set_ms_Seq set_ms_fold_S set_ms_fold_E set_ms_Grp set_ms_digits)
       blast
  then show ?thesis
  proof
    assume "\<exists>k' e. season_letter_at s k k' \<and> digits_run s k' e \<and> episode_letter_at s e
                        \<and> digits_run s (Suc e) j"
    then obtain k' e where sl: "season_letter_at s k k'" and d1: "digits_run s k' e"
      and el: "episode_letter_at s e" and d2: "digits_run s (Suc e) j" by blast
    from d2 have b: "e + 2 < length s" "is_digit (s ! (e + 1))" "is_digit (s ! (e + 2))"
      by (auto simp: digits_run_def)
    from sl d1 have ke: "k \<le> e" by (auto simp: season_letter_at_def digits_run_def)
    have "\<forall>t. k < t \<and> t \<le> e + 2 \<longrightarrow> s ! t \<noteq> CHR ''S''"
    proof (intro allI impI)
      fix t assume t: "k < t \<and> t \<le> e + 2"
      consider "t < k'" | "k' \<le> t \<and> t < e" | "t = e" | "t = e + 1" | "t = e + 2"
        using t by linarith
      then show "s ! t \<noteq> CHR ''S''"
      proof cases
        case 1
        with t sl have "t = Suc k \<and> k' = k + 2" by (auto simp: season_letter_at_def)
        with sl have "s ! t = CHR 0xBF" by (auto simp: season_letter_at_def)
        then show ?thesis by simp
      next
        case 2
        with d1 have "is_digit (s ! t)" by (auto simp: digits_run_def)
        then show ?thesis by auto
      next
        case 3
        with el show ?thesis by (auto simp: episode_letter_at_def)
      next
        case 4
        with b show ?thesis by auto
      next
        case 5
        with b show ?thesis by auto
      qed
    qed
    with ke el b show ?thesis unfolding bare_episode_at_def by blast
  next
    assume a: "episode_letter_at s k \<and> digits_run s (Suc k) j"
    then have b: "k + 2 < length s" "is_digit (s ! (k + 1))" "is_digit (s ! (k + 2))"
      by (auto simp: digits_run_def)
    have "\<forall>t. k < t \<and> t \<le> k + 2 \<longrightarrow> s ! t \<noteq> CHR ''S''"
    proof (intro allI impI)
      fix t assume "k < t \<and> t \<le> k + 2"
      then have "t = k + 1 \<or> t = k + 2" by linarith
      with b show "s ! t \<noteq> CHR ''S''" by auto
    qed
    with a b show ?thesis unfolding bare_episode_at_def by blast
  qed
qed

lemma extract_pattern_at_token:
  assumes "\<forall>r\<in>set num. is_digit r" "2 \<le> length num" "length num \<le> 4"
    "\<forall>r\<in>set ds. is_digit r" "2 \<le> length ds" "length ds \<le> 4"
    "rest = [] \<or> \<not> is_digit (hd rest)"
    "s = pre @ ''S'' @ num @ ''E'' @ ds @ rest"
    "e = length pre + 1 + length num" "j = e + 1 + length ds"
  shows "first_match extractEpisodeNumber_pattern s (length pre, []) (j, [(1, e, j)])"
proof -
  have s1: "first_match (fold_lit CHR ''S'') s (length pre, []) (Suc (length pre), [])"
    using assms(8) by (intro fm_fold_S) simp_all
  have "drop (Suc (length pre)) s = num @ (''E'' @ ds @ rest)"
    using assms(8) by simp
  from fm_Rep[OF this assms(1,2,3), of "[]"]
  have s2: "first_match (Rep 2 4 is_digit) s (Suc (length pre), []) (e, [])"
    using assms(9) by simp
  have se: "s ! e = CHR ''E''" "e < length s"
    using assms(8,9) by (simp_all add: nth_append)
  then have s3: "first_match (fold_lit CHR ''E'') s (e, []) (Suc e, [])"
    by (intro fm_fold_E) simp_all
  have "drop (Suc e) s = ds @ rest"
    using assms(8,9) by simp
  from fm_Rep[OF this assms(4,5,6), of "[]"] assms(7,10)
  have s4: "first_match (Rep 2 4 is_digit) s (Suc e, []) (j, [])"
    by simp
  from fm_Grp[OF fm_Seq[OF s3 s4], of 1]
  have "first_match (Grp 1 (Seq (fold_lit CHR ''E'') (Rep 2 4 is_digit))) s (e, []) (j, [(1, e, j)])" .
  from fm_Seq[OF s1 fm_Seq[OF s2 this]]
  show ?thesis
    unfolding extractEpisodeNumber_pattern_def cat_unfold by (rule fm_Alt1)
qed

lemma slice_append:
  assumes "i \<le> k" "k \<le> j"
  shows "slice s i j = slice s i k @ slice s k j"
proof -
  from assms have "j - i = (k - i) + (j - k)" by simp
  then have "take (j - i) (drop i s) = take (k - i) (drop i s) @ take (j - k) (drop (k - i) (drop i s))"
    by (simp only: take_add)
  with assms(1) show ?thesis by (simp add: slice_def)
qed

lemma upper_digit: "is_digit r \<Longrightarrow> upper_char r = r"
  by (simp add: upper_char_def is_digit_nat is_lower_nat)

lemma ToUpper_key:
  assumes "\<forall>r\<in>set ds. is_digit r"
  shows "ToUpper (''E'' @ ds) = ''E'' @ ds"
proof -
  from assms have "map upper_char ds = ds" by (intro map_idI) (simp add: upper_digit)
  moreover have "upper_char CHR ''E'' = CHR ''E''" by (simp add: upper_char_def is_lower_nat)
  ultimately show ?thesis by (simp add: ToUpper_def)
qed

lemma season_letter_slice:
  assumes "season_letter_at s i k"
  shows "i < k" "k \<le> length s" "\<forall>r\<in>set (slice s i k). \<not> is_digit r" "length (slice s i k) = k - i"
proof -
  from assms show b: "i < k" "k \<le> length s" by (auto simp: season_letter_at_def)
  then show "length (slice s i k) = k - i" by (simp add: slice_length)
  show "\<forall>r\<in>set (slice s i k). \<not> is_digit r"
  proof
    fix r assume "r \<in> set (slice s i k)"
    then obtain t where t: "t < length (slice s i k)" "r = slice s i k ! t"
      by (metis in_set_conv_nth)
    with b have tt: "t < k - i" "r = s ! (i + t)" by (simp_all add: slice_length slice_nth)
    with assms have "r = CHR ''S'' \<or> r = CHR ''s'' \<or> r = CHR 0xC5 \<or> r = CHR 0xBF"
      by (auto simp: season_letter_at_def less_Suc_eq numeral_2_eq_2)
    then show "\<not> is_digit r" by auto
  qed
qed

text \<open>
  Claim C7, as stated, fails: a pack name without a standalone season token (a pack
  recognized by its file count) is returned unchanged by
  \<^verbatim>\<open>generateEpisodeReleaseName\<close>, and no key can be extracted from it.
\<close>

theorem synthesized_name_without_key_counterexample:
  "generateEpisodeReleaseName ''Show.Name.1080p'' ''E05'' = ''Show.Name.1080p''
   \<and> extractEpisodeNumber (generateEpisodeReleaseName ''Show.Name.1080p'' ''E05'') = []
   \<and> \<not> EqualFold (extractEpisodeNumber (generateEpisodeReleaseName ''Show.Name.1080p'' ''E05''))
         ''E05''"
  by code_simp

text \<open>
  Claim C7, amended. Let the pack name, with its \<^verbatim>\<open>COMPLETE\<close> and
  \<^verbatim>\<open>iNCOMPLETE\<close> tokens removed and trimmed, hold a standalone season token before
  which no \<^verbatim>\<open>E\<close> is directly followed by two digits. Then for every key \<^verbatim>\<open>E\<close>
  plus two to four digits, \<^verbatim>\<open>extractEpisodeNumber\<close> of the release name synthesized
  from the pack name and the key is that key.
\<close>

theorem key_survives_synthesis:
  assumes cn: "cleanName = TrimSpace (ReplaceAllString completePattern seasonPackName [])"
    and tok: "season_token_at cleanName i"
    and nb: "\<forall>j\<in>{0..<i}. \<not> bare_episode_at cleanName j"
    and key: "episodeNum = ''E'' @ ds" "2 \<le> length ds" "length ds \<le> 4" "\<forall>r\<in>set ds. is_digit r"
  shows "extractEpisodeNumber (generateEpisodeReleaseName seasonPackName episodeNum) = episodeNum"
proof -
  define repl where "repl = (\<lambda>match. ''S'' @ FindString digitsPattern match @ episodeNum)"
  define out where "out = generateEpisodeReleaseName seasonPackName episodeNum"
  have gen: "out = replaceAll seasonTokenPattern cleanName repl 0 0"
    by (simp add: out_def generateEpisodeReleaseName_def cn ReplaceAllStringFunc_def repl_def Let_def
        del: replaceAll.simps)
  from tok have il: "i \<le> length cleanName"
    by (auto simp: season_token_at_def season_letter_at_def)
  from tok have "ms seasonTokenPattern cleanName (i, []) \<noteq> []"
    by (simp only: seasonTokenPattern_at)
  from exec_exists[OF _ il this, of 0] obtain i0 a1 cp
    where ex: "exec seasonTokenPattern cleanName 0 = Some (i0, a1, cp)" and le: "i0 \<le> i"
    by auto
  from exec_SomeD(3)[OF ex] obtain k
    where sl: "season_letter_at cleanName i0 k" and dr: "digits_run cleanName k a1"
      and wb: "word_boundary cleanName a1"
    unfolding seasonTokenPattern_mem by blast
  note slf = season_letter_slice[OF sl]
  from dr have drb: "k + 2 \<le> a1" "a1 \<le> length cleanName" "is_digit (cleanName ! (a1 - 1))"
    by (auto simp: digits_run_def)
  with slf have lt: "i0 < a1" by simp
  define pre where "pre = take i0 cleanName"
  define num where "num = slice cleanName k a1"
  from slf drb have lp: "length pre = i0" by (simp add: pre_def)
  note numf = digits_run_slice[OF dr, folded num_def]
  have "slice cleanName i0 a1 = slice cleanName i0 k @ num"
    unfolding num_def using slf drb by (intro slice_append) simp_all
  with FindString_digits[OF slf(3) numf(3) numf(1) numf(2)]
  have fs: "repl (slice cleanName i0 a1) = ''S'' @ num @ ''E'' @ ds"
    by (simp add: repl_def key(1))
  from replaceAll_first[OF ex lt, of repl] obtain sp
    where sp: "a1 \<le> sp"
      and o: "out = pre @ repl (slice cleanName i0 a1) @ replaceAll seasonTokenPattern cleanName repl sp a1"
    unfolding gen pre_def by blast
  define rest where "rest = replaceAll seasonTokenPattern cleanName repl sp a1"
  from boundary_after_digit[OF wb _ drb(2,3)] drb(1)
  have "a1 = length cleanName \<or> \<not> is_digit (cleanName ! a1)"
    by (auto simp: is_word_def)
  moreover have "\<And>m. repl m \<noteq> [] \<and> \<not> is_digit (hd (repl m))"
    by (simp add: repl_def)
  moreover have "0 < min_width seasonTokenPattern"
    by (simp add: seasonTokenPattern_def fold_lit_def)
  ultimately have rh: "rest = [] \<or> \<not> is_digit (hd rest)"
    unfolding rest_def using replaceAll_rest_head[OF sp drb(2)] by blast
  from o fs have outs: "out = pre @ ''S'' @ num @ ''E'' @ ds @ rest"
    by (simp add: rest_def)
  define e where "e = length pre + 1 + length num"
  define j where "j = e + 1 + length ds"
  from extract_pattern_at_token[OF numf(3,1,2) key(4,2,3) rh outs e_def j_def]
  obtain zs where m: "ms extractEpisodeNumber_pattern out (i0, []) = (j, [(1, e, j)]) # zs"
    by (auto simp: first_match_def lp)
  from outs lp have oS: "out ! i0 = CHR ''S''" "i0 < length out"
    by (simp_all add: nth_append)
  have none: "\<forall>t. 0 \<le> t \<and> t < i0 \<longrightarrow> ms extractEpisodeNumber_pattern out (t, []) = []"
  proof (intro allI impI, rule ccontr)
    fix t assume t: "0 \<le> t \<and> t < i0"
      and "ms extractEpisodeNumber_pattern out (t, []) \<noteq> []"
    then obtain j' c' where "(j', c') \<in> set (ms extractEpisodeNumber_pattern out (t, []))"
      by (auto simp: nonempty_iff_mem)
    from extract_pattern_needs_bare_episode[OF this] obtain e'
      where e': "t \<le> e'" "bare_episode_at out e'"
        and nS: "\<forall>u. t < u \<and> u \<le> e' + 2 \<longrightarrow> out ! u \<noteq> CHR ''S''"
      by blast
    from nS oS t have far: "e' + 2 < i0" by (meson not_le_imp_less)
    have same: "\<And>u. u < i0 \<Longrightarrow> out ! u = cleanName ! u"
      using outs lp by (simp add: nth_append pre_def)
    from far le il have "e' + 2 < length cleanName" by simp
    with e'(2) far same[of e'] same[of "e' + 1"] same[of "e' + 2"]
    have "bare_episode_at cleanName e'"
      by (simp add: bare_episode_at_def episode_letter_at_def)
    moreover from far le have "e' \<in> {0..<i}" by simp
    ultimately show False using nb by blast
  qed
  from lp oS have "i0 \<le> length out" by simp
  from exec_eqI[OF _ this none m]
  have "exec extractEpisodeNumber_pattern out 0 = Some (i0, j, [(1, e, j)])" by simp
  moreover have "slice out e j = ''E'' @ ds"
    using outs by (simp add: slice_def e_def j_def)
  ultimately have "extractEpisodeNumber out = first_episode_part [''E'' @ ds, []]"
    by (simp add: extractEpisodeNumber_def FindStringSubmatch_def group_def numeral_2_eq_2)
  also have "\<dots> = ''E'' @ ds"
    using ToUpper_key[OF key(4)] by (simp add: HasPrefix_def)
  finally show ?thesis by (simp add: out_def key(1))
qed

theorem key_survives_synthesis_witness:
  "extractEpisodeNumber (generateEpisodeReleaseName ''Show.S01.COMPLETE'' ''E05'') = ''E05''"
proof -
  have a: "''Show.S01.'' = TrimSpace (ReplaceAllString completePattern ''Show.S01.COMPLETE'' [])"
    and b: "season_token_at ''Show.S01.'' 5"
    and d: "\<forall>r\<in>set ''05''. is_digit r"
    by code_simp+
  have "{0..<5} = set [0, 1, 2, 3, 4::nat]"
    by auto
  moreover have "\<forall>j\<in>set [0, 1, 2, 3, 4::nat]. \<not> bare_episode_at ''Show.S01.'' j"
    by code_simp
  ultimately have c: "\<forall>j\<in>{0..<5}. \<not> bare_episode_at ''Show.S01.'' j"
    by simp
  from key_survives_synthesis[OF a b c, of "''E05''" "''05''"] d
  show ?thesis by simp
qed

subsection \<open>Accepted units have a key\<close>

text \<open>
  Claim C9. Whenever \<^verbatim>\<open>extractEpisodeInfo\<close> returns a unit with a non-empty
  \<^verbatim>\<open>ReleaseName\<close>, the unit's \<^verbatim>\<open>EpisodeNum\<close> is non-empty too; hence every unit that
  \<^verbatim>\<open>processSeasonPack\<close> keeps for upload has a release name and a key.
\<close>

theorem accepted_unit_has_key:
  "(ReleaseName (extractEpisodeInfo fs videoFile seasonPackName generalNFO) \<noteq> []
      \<longrightarrow> EpisodeNum (extractEpisodeInfo fs videoFile seasonPackName generalNFO) \<noteq> [])
   \<and> (\<forall>e \<in> set (fst (processSeasonPack_episodes fs finalDir cleanJobName)).
         ReleaseName e \<noteq> [] \<and> EpisodeNum e \<noteq> [])"
proof -
  have one: "\<And>v n g. ReleaseName (extractEpisodeInfo fs v n g) \<noteq> []
      \<Longrightarrow> EpisodeNum (extractEpisodeInfo fs v n g) \<noteq> []"
    using isoDate_group_nonempty
    by (auto simp: extractEpisodeInfo_def Let_def split: if_splits option.splits)
  then show ?thesis
    by (auto simp: processSeasonPack_episodes_def Let_def split: prod.splits option.splits)
qed

theorem accepted_unit_has_key_witness:
  "ReleaseName (extractEpisodeInfo example_fs example_video ''Show.S01'' []) \<noteq> []
   \<and> EpisodeNum (extractEpisodeInfo example_fs example_video ''Show.S01'' []) \<noteq> []
   \<and> set (fst (processSeasonPack_episodes example_fs ''/dl/Show.S01'' ''Show.S01'')) \<noteq> {}"
proof -
  have h: "ReleaseName (extractEpisodeInfo example_fs example_video ''Show.S01'' []) \<noteq> []"
    by code_simp
  have n: "set (fst (processSeasonPack_episodes example_fs ''/dl/Show.S01'' ''Show.S01'')) \<noteq> {}"
    by code_simp
  from accepted_unit_has_key[of example_fs example_video "''Show.S01''" "[]", THEN conjunct1] h n
  show ?thesis by blast
qed

subsection \<open>The lower-case check needs a lower-case letter\<close>



end
